theory Spec2Isabelle
  imports
    Complex_Main
    "HOL-Library.Multiset"
    "HOL-Library.Char_ord"
    "HOL-Library.List_Lexorder"
    "HOL-Library.Product_Lexorder"
    "HOL-Library.Option_ord"
begin

chapter \<open>Excel Operations App: reconciliation and anomaly detection\<close>

text \<open>
  A shallow embedding of the four services of the application:
  the anomaly detector (\<^verbatim>\<open>_service_three/service_logic.py\<close>, \<^verbatim>\<open>flag_anomalies\<close>),
  the file comparison (\<^verbatim>\<open>_service_two/service_logic.py\<close>, \<^verbatim>\<open>compare\<close>),
  the multi-file merge (\<^verbatim>\<open>_service_eight/service_logic.py\<close>, \<^verbatim>\<open>service_merge\<close>) and
  the forecast comparison (\<^verbatim>\<open>_service_one/service_logic.py\<close>, \<^verbatim>\<open>analyse\<close>).

  Conventions. A pandas DataFrame is a list of rows. Numeric cells are exact rationals
  (the source computes in binary floating point; rounding is not modelled). A missing cell
  (NaN) is \<open>None\<close>. An exception that the source catches and turns into "no output" is an
  \<open>Inl\<close> or \<open>None\<close> result.
\<close>

section \<open>Service three: the anomaly detector\<close>

subsection \<open>Data\<close>

text \<open>The direction strings \<^verbatim>\<open>'increase'\<close> and \<^verbatim>\<open>'decrease'\<close>.\<close>

datatype direction = Increase | Decrease

text \<open>
  A row of the aggregated usage table: the columns \<^verbatim>\<open>COL_COMPANY\<close>, \<^verbatim>\<open>COL_SERVICE\<close>,
  \<^verbatim>\<open>COL_DATE\<close> and \<^verbatim>\<open>COL_USAGE\<close>, and the two columns that \<^verbatim>\<open>flag_anomalies\<close> adds
  to its copy \<^verbatim>\<open>df_flags\<close>. Dates are day numbers.
\<close>

record usage_row =
  company :: string
  service :: string
  fiscal_date :: int
  acr :: rat

record flagged_row = usage_row +
  anomaly :: bool
  anomaly_direction :: "direction option"

text \<open>The keyword parameters of \<^verbatim>\<open>flag_anomalies\<close>.\<close>

record detect_params =
  anomaly_threshold_percent :: int
  anomaly_threshold_abs :: int
  recent_window_size :: nat
  shift_window :: nat

definition default_params :: detect_params where
  "default_params =
     \<lparr>anomaly_threshold_percent = 20, anomaly_threshold_abs = 60,
      recent_window_size = 7, shift_window = 3\<rparr>"

subsection \<open>The scan\<close>

text \<open>
  \<^verbatim>\<open>Series.median()\<close>: the middle element of the sorted values, the mean of the two
  middle elements when their number is even. The source calls it on a non-empty window only.
\<close>

definition median :: "rat list \<Rightarrow> rat" where
  "median xs =
     (let s = sort xs; n = length s
      in if odd n then s ! (n div 2) else (s ! (n div 2 - 1) + s ! (n div 2)) / 2)"

text \<open>
  \<^verbatim>\<open>group.loc[i - recent_window_size:i - 1, COL_USAGE]\<close>, for a list of the group's usage
  values in scan order. The label slice is inclusive at both ends; the loop has
  \<open>recent_window_size \<le> i\<close>, so the subtraction does not truncate.
\<close>

definition historical_window :: "detect_params \<Rightarrow> rat list \<Rightarrow> nat \<Rightarrow> rat list" where
  "historical_window p us i =
     take (recent_window_size p) (drop (i - recent_window_size p) us)"

definition baseline_usage :: "detect_params \<Rightarrow> rat list \<Rightarrow> nat \<Rightarrow> rat" where
  "baseline_usage p us i = median (historical_window p us i)"

text \<open>Lines 99 to 102: the two deviations and the test of both thresholds.\<close>

definition is_single_anomaly :: "detect_params \<Rightarrow> rat \<Rightarrow> rat \<Rightarrow> bool" where
  "is_single_anomaly p current_usage baseline =
     (let percent_change = \<bar>(current_usage - baseline) / baseline\<bar> * 100;
          absolute_change = \<bar>current_usage - baseline\<bar>
      in percent_change \<ge> of_int (anomaly_threshold_percent p)
         \<and> absolute_change \<ge> of_int (anomaly_threshold_abs p))"

text \<open>
  A group after \<^verbatim>\<open>sort_values(by=COL_DATE).reset_index()\<close>: its rows in scan order, each
  with its label in \<^verbatim>\<open>df_flags\<close> (the column \<^verbatim>\<open>'index'\<close>).
\<close>

type_synonym group = "(nat \<times> flagged_row) list"

definition usages :: "group \<Rightarrow> rat list" where
  "usages g = map (\<lambda>(ix, r). acr r) g"

text \<open>
  Lines 109 to 114, the body of the loop over \<open>j\<close>: a row not flagged yet gets the flag and
  its direction, computed from \<^verbatim>\<open>baseline_usage\<close> of the row \<open>i\<close> that is being scanned.
\<close>

definition flag_row :: "group \<Rightarrow> rat \<Rightarrow> nat \<Rightarrow> flagged_row list \<Rightarrow> flagged_row list" where
  "flag_row g baseline j df_flags =
     (let original_index = fst (g ! j)
      in if \<not> anomaly (df_flags ! original_index)
         then df_flags[original_index := (df_flags ! original_index)
                \<lparr>anomaly := True,
                 anomaly_direction :=
                   Some (if acr (snd (g ! j)) > baseline then Increase else Decrease)\<rparr>]
         else df_flags)"

text \<open>
  Lines 89 to 116, the body of the loop over \<open>i\<close>. The state is the counter
  \<^verbatim>\<open>consecutive_anomalies\<close> and the table \<^verbatim>\<open>df_flags\<close>. An empty window and a zero
  baseline leave both unchanged.
\<close>

definition scan_step ::
  "detect_params \<Rightarrow> group \<Rightarrow> nat \<Rightarrow> nat \<times> flagged_row list \<Rightarrow> nat \<times> flagged_row list" where
  "scan_step p g i st =
     (let consecutive_anomalies = fst st; df_flags = snd st;
          window = historical_window p (usages g) i;
          current_usage = usages g ! i
      in if window = [] then st
         else
           let baseline = median window
           in if baseline \<noteq> 0 then
                if is_single_anomaly p current_usage baseline then
                  if consecutive_anomalies + 1 \<ge> shift_window p
                  then (consecutive_anomalies + 1,
                        fold (flag_row g baseline) [i + 1 - shift_window p ..< i + 1] df_flags)
                  else (consecutive_anomalies + 1, df_flags)
                else (0, df_flags)
              else st)"

text \<open>Lines 85 to 116 for one group: the counter starts at zero, \<open>i\<close> at the window size.\<close>

definition scan_group :: "detect_params \<Rightarrow> group \<Rightarrow> flagged_row list \<Rightarrow> flagged_row list" where
  "scan_group p g df_flags =
     snd (fold (scan_step p g) [recent_window_size p ..< length g] (0, df_flags))"

text \<open>
  \<^verbatim>\<open>df_flags.groupby([COL_COMPANY, COL_SERVICE])\<close>: one group for each distinct key, in key
  order, holding the rows of that key with their labels; then the sort by date. Pandas
  does not fix the order of rows of one group with equal dates; here they keep their order,
  and nothing proved below depends on it.
\<close>

definition group_key :: "flagged_row \<Rightarrow> string \<times> string" where
  "group_key r = (company r, service r)"

definition group_rows :: "flagged_row list \<Rightarrow> string \<times> string \<Rightarrow> group" where
  "group_rows df k =
     sort_key (\<lambda>(ix, r). fiscal_date r)
       (filter (\<lambda>(ix, r). group_key r = k) (enumerate 0 df))"

definition groupby :: "flagged_row list \<Rightarrow> group list" where
  "groupby df = map (group_rows df) (sort (remdups (map group_key df)))"

text \<open>Lines 79 to 81: the copy with the two new columns.\<close>

definition init_flags :: "usage_row \<Rightarrow> flagged_row" where
  "init_flags r =
     \<lparr>company = company r, service = service r, fiscal_date = fiscal_date r, acr = acr r,
      anomaly = False, anomaly_direction = None\<rparr>"

definition flag_anomalies :: "detect_params \<Rightarrow> usage_row list \<Rightarrow> flagged_row list" where
  "flag_anomalies p df =
     (let df_flags = map init_flags df
      in fold (scan_group p) (groupby df_flags) df_flags)"

subsection \<open>The scan, described row by row\<close>

text \<open>
  The notions the properties below are stated with. A row \<open>i\<close> is evaluated when its window
  is non-empty and its baseline is not zero; it is a candidate when it is evaluated and
  passes both thresholds.
\<close>

definition evaluated :: "detect_params \<Rightarrow> rat list \<Rightarrow> nat \<Rightarrow> bool" where
  "evaluated p us i =
     (historical_window p us i \<noteq> [] \<and> baseline_usage p us i \<noteq> 0)"

definition candidate :: "detect_params \<Rightarrow> rat list \<Rightarrow> nat \<Rightarrow> bool" where
  "candidate p us i =
     (evaluated p us i \<and> is_single_anomaly p (us ! i) (baseline_usage p us i))"

text \<open>
  \<open>streak p us n\<close>: the number of candidates seen since the last evaluated row that was not
  a candidate, among the rows from the window size up to \<open>n\<close> (exclusive). A row that is not
  evaluated neither counts nor interrupts, and no confirmation resets the number.
\<close>

fun streak :: "detect_params \<Rightarrow> rat list \<Rightarrow> nat \<Rightarrow> nat" where
  "streak p us 0 = 0"
| "streak p us (Suc i) =
     (if i < recent_window_size p then 0
      else if candidate p us i then streak p us i + 1
      else if evaluated p us i then 0
      else streak p us i)"

text \<open>A row confirms when it is a candidate and the streak that ends with it is long enough.\<close>

definition confirming :: "detect_params \<Rightarrow> rat list \<Rightarrow> nat \<Rightarrow> bool" where
  "confirming p us i =
     (recent_window_size p \<le> i \<and> candidate p us i \<and> shift_window p \<le> streak p us (Suc i))"

text \<open>The rows below \<open>n\<close> that lie in the window of a confirming row.\<close>

definition confirmed_rows :: "detect_params \<Rightarrow> rat list \<Rightarrow> nat \<Rightarrow> nat set" where
  "confirmed_rows p us n =
     (\<Union>i \<in> {recent_window_size p ..< n}.
        if confirming p us i then {i + 1 - shift_window p .. i} else {})"

text \<open>The first confirming row below \<open>n\<close> whose window holds row \<open>j\<close>.\<close>

definition first_confirming :: "detect_params \<Rightarrow> rat list \<Rightarrow> nat \<Rightarrow> nat \<Rightarrow> nat option" where
  "first_confirming p us n j =
     find (\<lambda>i. confirming p us i \<and> i + 1 - shift_window p \<le> j) [j ..< n]"

text \<open>
  What the scan of the first \<open>n\<close> rows of a group leaves in the table at the label of the
  group's row \<open>j\<close>, given the table \<open>fl\<close> before the scan: a row flagged before is kept; a
  row in the window of a confirming row gets the flag, and the direction of its usage
  against the baseline of the first such confirming row; any other row is kept.
\<close>

definition direction_against :: "rat \<Rightarrow> rat \<Rightarrow> direction" where
  "direction_against u baseline = (if u > baseline then Increase else Decrease)"

definition expected_row ::
  "detect_params \<Rightarrow> group \<Rightarrow> flagged_row list \<Rightarrow> nat \<Rightarrow> nat \<Rightarrow> flagged_row" where
  "expected_row p g fl n j =
     (let r = fl ! fst (g ! j)
      in if anomaly r then r
         else case first_confirming p (usages g) n j of
                None \<Rightarrow> r
              | Some i \<Rightarrow>
                  r\<lparr>anomaly := True,
                    anomaly_direction :=
                      Some (direction_against (usages g ! j) (baseline_usage p (usages g) i))\<rparr>)"

text \<open>
  The state machine as the specification words it, for comparison with the scan: counting
  restarts after a confirmation. The result is the list of flags of the group's rows.
\<close>

definition spec_machine_step ::
  "detect_params \<Rightarrow> rat list \<Rightarrow> nat \<Rightarrow> nat \<times> bool list \<Rightarrow> nat \<times> bool list" where
  "spec_machine_step p us i st =
     (let k = fst st; flagged = snd st
      in if \<not> evaluated p us i then st
         else if candidate p us i then
           if k + 1 = shift_window p
           then (0, fold (\<lambda>j fl. fl[j := True]) [i + 1 - shift_window p ..< i + 1] flagged)
           else (k + 1, flagged)
         else (0, flagged))"

definition spec_machine :: "detect_params \<Rightarrow> rat list \<Rightarrow> bool list" where
  "spec_machine p us =
     snd (fold (spec_machine_step p us) [recent_window_size p ..< length us]
            (0, replicate (length us) False))"

text \<open>A row whose flag and direction agree.\<close>

definition flag_consistent :: "flagged_row \<Rightarrow> bool" where
  "flag_consistent r =
     ((anomaly r \<longleftrightarrow> anomaly_direction r = Some Increase \<or> anomaly_direction r = Some Decrease)
      \<and> (\<not> anomaly r \<longleftrightarrow> anomaly_direction r = None))"

text \<open>
  The state of the loop over \<open>i\<close> after the first \<open>n\<close> rows of a group, started on the
  table \<open>fl\<close>.
\<close>

definition scanned ::
  "detect_params \<Rightarrow> group \<Rightarrow> flagged_row list \<Rightarrow> nat \<Rightarrow> nat \<times> flagged_row list \<Rightarrow> bool" where
  "scanned p g fl n st =
     (fst st = streak p (usages g) n
      \<and> length (snd st) = length fl
      \<and> (\<forall>j < length g. snd st ! fst (g ! j) = expected_row p g fl n j)
      \<and> (\<forall>x. x \<notin> fst ` set g \<longrightarrow> snd st ! x = fl ! x))"

section \<open>Service two: the file comparison\<close>

subsection \<open>Data\<close>

text \<open>
  A DataFrame: its column labels and its rows, a row giving each column's cell. Cell values
  come from one linearly ordered type, so that every column can be sorted; \<open>None\<close> is the
  missing value. Column labels are distinct, as \<^verbatim>\<open>read_excel\<close> delivers them.
\<close>

type_synonym 'a row = "string \<Rightarrow> 'a option"

record 'a dataframe =
  columns :: "string list"
  rows :: "'a row list"

text \<open>
  A cell of \<^verbatim>\<open>result_df\<close>: a cell of the first table, or the string
  \<^verbatim>\<open>f"{val1} \<rightarrow> {val2}"\<close> that replaces it, kept as the two values.
\<close>

datatype 'a result_cell = Orig "'a option" | Changed "'a option" "'a option"

text \<open>
  The two ways \<^verbatim>\<open>compare\<close> ends without a report: the key is not a common column (line
  59), or an exception reaches the handler of line 209.
\<close>

datatype compare_error = KeyNotFound | ComparisonFailed

subsection \<open>Alignment\<close>

text \<open>\<^verbatim>\<open>df[cols].copy()\<close>.\<close>

definition select_columns :: "string list \<Rightarrow> 'a dataframe \<Rightarrow> 'a dataframe" where
  "select_columns cols df =
     \<lparr>columns = cols, rows = map (\<lambda>r c. if c \<in> set cols then r c else None) (rows df)\<rparr>"

text \<open>\<^verbatim>\<open>df[c]\<close>, \<^verbatim>\<open>Series.dropna()\<close> and \<^verbatim>\<open>Series.isin(keys)\<close> for one cell.\<close>

definition column :: "'a dataframe \<Rightarrow> string \<Rightarrow> 'a option list" where
  "column df c = map (\<lambda>r. r c) (rows df)"

definition dropna :: "'a option list \<Rightarrow> 'a list" where
  "dropna xs = map the (filter (\<lambda>x. x \<noteq> None) xs)"

definition isin :: "'a option \<Rightarrow> 'a set \<Rightarrow> bool" where
  "isin x keys = (case x of None \<Rightarrow> False | Some k \<Rightarrow> k \<in> keys)"

text \<open>
  \<^verbatim>\<open>sort_values(by=cols)\<close>: ascending by the tuple of the columns, a missing value after
  every other value of its column.
\<close>

definition na_last :: "'a option \<Rightarrow> bool \<times> 'a option" where
  "na_last x = (x = None, x)"

definition sort_tuple :: "string list \<Rightarrow> 'a row \<Rightarrow> (bool \<times> 'a option) list" where
  "sort_tuple cols r = map (\<lambda>c. na_last (r c)) cols"

text \<open>
  With several columns pandas orders the rows by a stable lexicographic sort. With a single
  column it runs its default sort, a quicksort: the result is sorted, but rows with equal
  values may come out in any order. That sort is the argument \<open>quicksort\<close>, of which
  \<open>sorts_by_key\<close> says all that is known.
\<close>

definition sorts_by_key ::
  "((('a::linorder) row \<Rightarrow> (bool \<times> 'a option) list) \<Rightarrow> 'a row list \<Rightarrow> 'a row list) \<Rightarrow> bool" where
  "sorts_by_key quicksort =
     (\<forall>k rs. mset (quicksort k rs) = mset rs \<and> sorted (map k (quicksort k rs)))"

definition sort_values ::
  "((('a::linorder) row \<Rightarrow> (bool \<times> 'a option) list) \<Rightarrow> 'a row list \<Rightarrow> 'a row list)
   \<Rightarrow> string list \<Rightarrow> 'a row list \<Rightarrow> 'a row list" where
  "sort_values quicksort cols rs =
     (if length cols = 1 then quicksort (sort_tuple cols) rs
      else sort_key (sort_tuple cols) rs)"

text \<open>
  Lines 65 to 75. \<open>common_columns\<close> is the list made of a Python set at line 58; the order of
  such a list is not determined by the program, so the list is an argument here.
\<close>

definition kept_compare_columns :: "string list \<Rightarrow> string list \<Rightarrow> string list" where
  "kept_compare_columns common_columns compare_columns =
     filter (\<lambda>col. col \<in> set common_columns) compare_columns"

definition reordered_columns :: "string list \<Rightarrow> string \<Rightarrow> string list \<Rightarrow> string list" where
  "reordered_columns common_columns unique_key compare_columns =
     (let stable_columns = filter (\<lambda>col. col \<notin> set compare_columns) common_columns;
          stable_columns = unique_key # remove1 unique_key stable_columns
      in stable_columns @ compare_columns)"

text \<open>Lines 78 to 83: the rows whose key is one of the keys common to both tables.\<close>

definition common_keys :: "'a dataframe \<Rightarrow> 'a dataframe \<Rightarrow> string \<Rightarrow> 'a set" where
  "common_keys df1 df2 unique_key =
     (let df1_keys = set (dropna (column df1 unique_key));
          df2_keys = set (dropna (column df2 unique_key))
      in df1_keys \<inter> df2_keys)"

definition rows_with_keys :: "'a dataframe \<Rightarrow> string \<Rightarrow> 'a set \<Rightarrow> 'a row list" where
  "rows_with_keys df unique_key keys = filter (\<lambda>r. isin (r unique_key) keys) (rows df)"

text \<open>Lines 88 to 91.\<close>

definition sortable_columns :: "string list \<Rightarrow> string \<Rightarrow> string list \<Rightarrow> string list" where
  "sortable_columns df_columns unique_key compare_columns =
     (let sortable = filter (\<lambda>col. col \<notin> set compare_columns) df_columns
      in unique_key # remove1 unique_key sortable)"

text \<open>
  The tables as they stand after line 83, with the columns that are compared and the
  columns that are sorted by; lines 93 and 94 then sort both tables.
\<close>

record 'a alignment =
  df1_aligned :: "'a row list"
  df2_aligned :: "'a row list"
  compared :: "string list"
  sortable :: "string list"

definition intersect_tables ::
  "string list \<Rightarrow> 'a dataframe \<Rightarrow> 'a dataframe \<Rightarrow> string \<Rightarrow> string list
   \<Rightarrow> compare_error + 'a alignment" where
  "intersect_tables common_columns df1 df2 unique_key compare_columns =
     (if unique_key \<notin> set common_columns then Inl KeyNotFound
      else
        let compare_columns = kept_compare_columns common_columns compare_columns;
            reordered = reordered_columns common_columns unique_key compare_columns;
            df1 = select_columns reordered df1;
            df2 = select_columns reordered df2;
            keys = common_keys df1 df2 unique_key
        in Inr \<lparr>df1_aligned = rows_with_keys df1 unique_key keys,
                df2_aligned = rows_with_keys df2 unique_key keys,
                compared = compare_columns,
                sortable = sortable_columns (columns df1) unique_key compare_columns\<rparr>)"

definition sort_aligned ::
  "((('a::linorder) row \<Rightarrow> (bool \<times> 'a option) list) \<Rightarrow> 'a row list \<Rightarrow> 'a row list)
   \<Rightarrow> 'a alignment \<Rightarrow> 'a alignment" where
  "sort_aligned quicksort al =
     al\<lparr>df1_aligned := sort_values quicksort (sortable al) (df1_aligned al),
        df2_aligned := sort_values quicksort (sortable al) (df2_aligned al)\<rparr>"

definition align ::
  "((('a::linorder) row \<Rightarrow> (bool \<times> 'a option) list) \<Rightarrow> 'a row list \<Rightarrow> 'a row list)
   \<Rightarrow> string list \<Rightarrow> 'a dataframe \<Rightarrow> 'a dataframe \<Rightarrow> string \<Rightarrow> string list
   \<Rightarrow> compare_error + 'a alignment" where
  "align quicksort common_columns df1 df2 unique_key compare_columns =
     (case intersect_tables common_columns df1 df2 unique_key compare_columns of
        Inl e \<Rightarrow> Inl e
      | Inr al \<Rightarrow> Inr (sort_aligned quicksort al))"

subsection \<open>Comparison\<close>

text \<open>
  Lines 107 to 117, the body of the loop over the compared columns, for the rows \<open>r1\<close> and
  \<open>r2\<close> at position \<open>idx\<close>. The state is \<^verbatim>\<open>result_df\<close> and \<^verbatim>\<open>mismatches\<close>.
\<close>

definition compare_cell ::
  "'a row \<Rightarrow> 'a row \<Rightarrow> nat \<Rightarrow> string
   \<Rightarrow> (string \<Rightarrow> 'a result_cell) list \<times> (nat \<times> string) list
   \<Rightarrow> (string \<Rightarrow> 'a result_cell) list \<times> (nat \<times> string) list" where
  "compare_cell r1 r2 idx col st =
     (let result_df = fst st; mismatches = snd st; val1 = r1 col; val2 = r2 col
      in if val1 = None \<and> val2 = None then st
         else if val1 \<noteq> val2
         then (result_df[idx := (result_df ! idx)(col := Changed val1 val2)],
               mismatches @ [(idx, col)])
         else st)"

text \<open>
  Lines 105 and 106, the loop over the positions of the first table. Reading row \<open>idx\<close> of
  the second table raises \<^verbatim>\<open>IndexError\<close> when that table is shorter; the read happens
  only inside the loop over the columns.
\<close>

fun compare_rows ::
  "string list \<Rightarrow> 'a row list \<Rightarrow> 'a row list \<Rightarrow> nat list
   \<Rightarrow> (string \<Rightarrow> 'a result_cell) list \<times> (nat \<times> string) list
   \<Rightarrow> compare_error + (string \<Rightarrow> 'a result_cell) list \<times> (nat \<times> string) list" where
  "compare_rows cols a1 a2 [] st = Inr st"
| "compare_rows cols a1 a2 (idx # rest) st =
     (if cols \<noteq> [] \<and> length a2 \<le> idx then Inl ComparisonFailed
      else compare_rows cols a1 a2 rest (fold (compare_cell (a1 ! idx) (a2 ! idx) idx) cols st))"

text \<open>Lines 43 to 45: the key is not compared with itself.\<close>

definition without_key :: "string \<Rightarrow> string list \<Rightarrow> string list" where
  "without_key unique_key compare_columns =
     (if unique_key \<in> set compare_columns then remove1 unique_key compare_columns
      else compare_columns)"

text \<open>\<^verbatim>\<open>compare\<close>, from the loaded tables to \<^verbatim>\<open>result_df\<close> and \<^verbatim>\<open>mismatches\<close>.\<close>

definition compare ::
  "((('a::linorder) row \<Rightarrow> (bool \<times> 'a option) list) \<Rightarrow> 'a row list \<Rightarrow> 'a row list)
   \<Rightarrow> string list \<Rightarrow> 'a dataframe \<Rightarrow> 'a dataframe \<Rightarrow> string \<Rightarrow> string list
   \<Rightarrow> compare_error + (string \<Rightarrow> 'a result_cell) list \<times> (nat \<times> string) list" where
  "compare quicksort common_columns df1 df2 unique_key compare_columns =
     (case align quicksort common_columns df1 df2 unique_key
             (without_key unique_key compare_columns) of
        Inl e \<Rightarrow> Inl e
      | Inr al \<Rightarrow>
          compare_rows (compared al) (df1_aligned al) (df2_aligned al)
            [0 ..< length (df1_aligned al)]
            (map (\<lambda>r c. Orig (r c)) (df1_aligned al), []))"

section \<open>Service eight: the merge of several files\<close>

subsection \<open>Helper functions\<close>

text \<open>Python's \<^verbatim>\<open>str\<close> of an integer.\<close>

definition digit_char :: "nat \<Rightarrow> char" where
  "digit_char d = char_of (48 + d)"

fun str_nat :: "nat \<Rightarrow> string" where
  "str_nat n = (if n < 10 then [digit_char n] else str_nat (n div 10) @ [digit_char (n mod 10)])"

declare str_nat.simps [simp del]

definition str_int :: "int \<Rightarrow> string" where
  "str_int i = (if i < 0 then CHR ''-'' # str_nat (nat (- i)) else str_nat (nat i))"

text \<open>\<^verbatim>\<open>get_ordinal\<close> and \<^verbatim>\<open>get_ordinal_word\<close>, called with positive numbers only.\<close>

definition get_ordinal :: "nat \<Rightarrow> string" where
  "get_ordinal n =
     (if 10 \<le> n \<and> n \<le> 20 then ''th''
      else if n mod 10 = 1 then ''st''
      else if n mod 10 = 2 then ''nd''
      else if n mod 10 = 3 then ''rd''
      else ''th'')"

definition get_ordinal_word :: "nat \<Rightarrow> string" where
  "get_ordinal_word n =
     (if n = 1 then ''first''
      else if n = 2 then ''second''
      else if n = 3 then ''third''
      else if n = 4 then ''fourth''
      else if n = 5 then ''fifth''
      else str_nat n @ get_ordinal n)"

subsection \<open>Data\<close>

text \<open>A cell of a loaded sheet is a text or a whole number, or missing.\<close>

datatype cellval = Txt string | Num int

definition py_str :: "cellval \<Rightarrow> string" where
  "py_str v = (case v of Txt s \<Rightarrow> s | Num n \<Rightarrow> str_int n)"

text \<open>
  \<^verbatim>\<open>Series.astype(str)\<close> applies \<^verbatim>\<open>str\<close> to every cell, the missing ones too, which
  become the text \<^verbatim>\<open>'nan'\<close>; \<^verbatim>\<open>Series.fillna('')\<close> then replaces the cells that are
  still missing.
\<close>

definition astype_str :: "cellval option \<Rightarrow> cellval option" where
  "astype_str x = (case x of None \<Rightarrow> Some (Txt ''nan'') | Some v \<Rightarrow> Some (Txt (py_str v)))"

definition fillna_empty :: "cellval option \<Rightarrow> cellval option" where
  "fillna_empty x = (case x of None \<Rightarrow> Some (Txt []) | Some v \<Rightarrow> Some v)"

text \<open>Line 71: \<^verbatim>\<open>df[merging_column] = df[merging_column].astype(str).fillna('')\<close>.\<close>

definition normalize_merge_key :: "string \<Rightarrow> cellval dataframe \<Rightarrow> cellval dataframe" where
  "normalize_merge_key merging_column df =
     df\<lparr>rows := map (\<lambda>r. r(merging_column := fillna_empty (astype_str (r merging_column))))
                  (rows df)\<rparr>"

text \<open>\<^verbatim>\<open>df.rename(columns={merging_column: 'merge_key'})\<close>.\<close>

definition rename_merge_key :: "string \<Rightarrow> cellval dataframe \<Rightarrow> cellval dataframe" where
  "rename_merge_key merging_column df =
     \<lparr>columns = map (\<lambda>c. if c = merging_column then ''merge_key'' else c) (columns df),
      rows = map (\<lambda>r c. if c = ''merge_key'' then r merging_column
                         else if c = merging_column then None
                         else r c) (rows df)\<rparr>"

subsection \<open>The outer join of pandas\<close>

text \<open>
  A model of \<^verbatim>\<open>pd.merge(left, right, on='merge_key', how='outer', suffixes=('', suffix))\<close>
  for tables with distinct column labels: the columns of the left table, then the other
  columns of the right table, renamed with the suffix where the left table has the label;
  one block of rows for each key, in key order, pairing every left row with every right row
  of that key. \<open>None\<close> stands for the exception pandas raises when two columns of the result
  would share a label. \<^verbatim>\<open>service_merge\<close> below takes the join as an argument, and what is
  proved of it holds for every join.
\<close>

definition key_text :: "cellval row \<Rightarrow> string" where
  "key_text r = (case r ''merge_key'' of None \<Rightarrow> [] | Some v \<Rightarrow> py_str v)"

definition joined_row ::
  "string list \<Rightarrow> string list \<Rightarrow> string \<Rightarrow> string \<Rightarrow> cellval row option \<Rightarrow> cellval row option
   \<Rightarrow> cellval row" where
  "joined_row left_cols right_cols suffix k lo ro =
     (\<lambda>c. if c = ''merge_key'' then Some (Txt k)
          else if c \<in> set left_cols then (case lo of None \<Rightarrow> None | Some l \<Rightarrow> l c)
          else (case find (\<lambda>rc. (if rc \<in> set left_cols then rc @ suffix else rc) = c) right_cols of
                  None \<Rightarrow> None
                | Some rc \<Rightarrow> (case ro of None \<Rightarrow> None | Some r \<Rightarrow> r rc)))"

definition pd_merge_outer ::
  "cellval dataframe \<Rightarrow> cellval dataframe \<Rightarrow> string \<Rightarrow> cellval dataframe option" where
  "pd_merge_outer left right suffix =
     (let left_cols = columns left;
          right_cols = filter (\<lambda>c. c \<noteq> ''merge_key'') (columns right);
          new_cols = left_cols
            @ map (\<lambda>rc. if rc \<in> set left_cols then rc @ suffix else rc) right_cols;
          keys = sort (remdups (map key_text (rows left) @ map key_text (rows right)));
          block = (\<lambda>k.
            let ls = filter (\<lambda>l. key_text l = k) (rows left);
                rs = filter (\<lambda>r. key_text r = k) (rows right);
                join = joined_row left_cols right_cols suffix k
            in if rs = [] then map (\<lambda>l. join (Some l) None) ls
               else if ls = [] then map (\<lambda>r. join None (Some r)) rs
               else concat (map (\<lambda>l. map (\<lambda>r. join (Some l) (Some r)) rs) ls))
      in if distinct new_cols
         then Some \<lparr>columns = new_cols, rows = concat (map block keys)\<rparr>
         else None)"

subsection \<open>The merge\<close>

text \<open>
  The loop of \<^verbatim>\<open>service_merge\<close> over \<^verbatim>\<open>enumerate(file_paths)\<close>. An entry is the position
  \<open>i\<close>, what \<^verbatim>\<open>read_excel\<close> delivered (\<open>None\<close> when it raised) and the file's
  \<^verbatim>\<open>merging_column\<close>. The accumulator is \<^verbatim>\<open>merged_df\<close>. An exception ends the function
  with \<^verbatim>\<open>None\<close> (line 95); a table without its merging column is passed over by the
  \<^verbatim>\<open>continue\<close> of line 68.
\<close>

fun merge_loop ::
  "(cellval dataframe \<Rightarrow> cellval dataframe \<Rightarrow> string \<Rightarrow> cellval dataframe option)
   \<Rightarrow> (nat \<times> cellval dataframe option \<times> string) list
   \<Rightarrow> cellval dataframe option \<Rightarrow> cellval dataframe option" where
  "merge_loop pd_merge [] merged_df = merged_df"
| "merge_loop pd_merge ((i, loaded, merging_column) # rest) merged_df =
     (case loaded of
        None \<Rightarrow> None
      | Some df \<Rightarrow>
          if merging_column \<notin> set (columns df) then merge_loop pd_merge rest merged_df
          else
            let df = normalize_merge_key merging_column df
            in (case merged_df of
                  None \<Rightarrow> merge_loop pd_merge rest (Some (rename_merge_key merging_column df))
                | Some merged \<Rightarrow>
                    let current_df = rename_merge_key merging_column df;
                        suffix = ''_'' @ get_ordinal_word (i + 1)
                    in (case pd_merge merged current_df suffix of
                          None \<Rightarrow> None
                        | Some m \<Rightarrow> merge_loop pd_merge rest (Some m))))"

definition service_merge ::
  "(cellval dataframe \<Rightarrow> cellval dataframe \<Rightarrow> string \<Rightarrow> cellval dataframe option)
   \<Rightarrow> (cellval dataframe option \<times> string) list \<Rightarrow> cellval dataframe option" where
  "service_merge pd_merge files = merge_loop pd_merge (enumerate 0 files) None"

text \<open>An entry of the loop whose table has its merging column, or whose file did not load.\<close>

definition has_merging_column :: "nat \<times> cellval dataframe option \<times> string \<Rightarrow> bool" where
  "has_merging_column e =
     (case e of (i, loaded, merging_column) \<Rightarrow>
        (case loaded of None \<Rightarrow> True | Some df \<Rightarrow> merging_column \<in> set (columns df)))"

section \<open>Service one: the forecast comparison\<close>

text \<open>
  A row of \<^verbatim>\<open>pivot_table\<close> after \<^verbatim>\<open>fillna(0)\<close>: its index and the forecast of each source;
  then the same row with the two computed columns.
\<close>

record pivot_row =
  pivot_index :: "string list"
  source1 :: rat
  source2 :: rat

record compared_row = pivot_row +
  difference :: rat
  similarity :: rat

text \<open>A division that fails on a zero divisor, as the quotient of HOL does not.\<close>

definition checked_div :: "rat \<Rightarrow> rat \<Rightarrow> rat option" where
  "checked_div a b = (if b = 0 then None else Some (a / b))"

text \<open>Lines 155 to 159, the function applied to each row.\<close>

definition similarity_percent :: "rat \<Rightarrow> rat \<Rightarrow> rat option" where
  "similarity_percent s1 s2 =
     (if s1 \<noteq> 0 then map_option (\<lambda>q. (1 - q) * 100) (checked_div \<bar>s1 - s2\<bar> s1)
      else Some 0)"

definition add_calculations :: "pivot_row \<Rightarrow> compared_row option" where
  "add_calculations r =
     map_option
       (\<lambda>s. \<lparr>pivot_index = pivot_index r, source1 = source1 r, source2 = source2 r,
              difference = source1 r - source2 r, similarity = s\<rparr>)
       (similarity_percent (source1 r) (source2 r))"

text \<open>All rows, one after the other; a failure in one row is a failure of the whole.\<close>

fun calculate_rows :: "pivot_row list \<Rightarrow> compared_row list option" where
  "calculate_rows [] = Some []"
| "calculate_rows (r # rs) =
     (case add_calculations r of
        None \<Rightarrow> None
      | Some c \<Rightarrow> map_option ((#) c) (calculate_rows rs))"

text \<open>
  Lines 151 to 165: the two columns, then the sort by \<^verbatim>\<open>Difference\<close> descending and
  \<^verbatim>\<open>Similarity %\<close> ascending.
\<close>

definition analyse_calculations :: "pivot_row list \<Rightarrow> compared_row list option" where
  "analyse_calculations pivot_table =
     map_option (sort_key (\<lambda>r. (- difference r, similarity r))) (calculate_rows pivot_table)"

section \<open>Example inputs\<close>

subsection \<open>Usage series\<close>

text \<open>One company and one service, a row for each day from day 0.\<close>

definition usage_series :: "rat list \<Rightarrow> usage_row list" where
  "usage_series us =
     map (\<lambda>(d, u). \<lparr>company = ''X'', service = ''svcA'', fiscal_date = int d, acr = u\<rparr>)
       (enumerate 0 us)"

text \<open>
  Ten days: the baselines of days 7, 8 and 9 are 100, 200 and 300, and each of the three
  days is a candidate under the default parameters.
\<close>

definition shifting_series :: "usage_row list" where
  "shifting_series = usage_series [100, 100, 100, 100, 300, 300, 300, 200, 400, 100]"

text \<open>Eleven days: seven days at 100, then four candidates in a row.\<close>

definition long_run_series :: "usage_row list" where
  "long_run_series = usage_series [100, 100, 100, 100, 100, 100, 100, 200, 200, 200, 200]"

subsection \<open>A pivot table\<close>

text \<open>Three entities: one forecast lowered, one with a first source of zero, one unchanged.\<close>

definition forecast_pivot :: "pivot_row list" where
  "forecast_pivot =
     [\<lparr>pivot_index = [''c''], source1 = 50, source2 = 50\<rparr>,
      \<lparr>pivot_index = [''b''], source1 = 0, source2 = 30\<rparr>,
      \<lparr>pivot_index = [''a''], source1 = 100, source2 = 80\<rparr>]"

definition forecast_result :: "compared_row list" where
  "forecast_result =
     [\<lparr>pivot_index = [''a''], source1 = 100, source2 = 80, difference = 20, similarity = 80\<rparr>,
      \<lparr>pivot_index = [''c''], source1 = 50, source2 = 50, difference = 0, similarity = 100\<rparr>,
      \<lparr>pivot_index = [''b''], source1 = 0, source2 = 30, difference = - 30, similarity = 0\<rparr>]"

subsection \<open>Sheets to merge\<close>

text \<open>
  A sheet with the key column \<^verbatim>\<open>id\<close>, one key written with a blank on each side, and a
  sheet that has no column \<^verbatim>\<open>id\<close>.
\<close>

definition keyed_sheet :: "cellval dataframe" where
  "keyed_sheet =
     \<lparr>columns = [''id'', ''x''],
      rows = [map_of [(''id'', Txt '' a ''), (''x'', Num 1)],
              map_of [(''id'', Num 7), (''x'', Num 2)]]\<rparr>"

definition keyless_sheet :: "cellval dataframe" where
  "keyless_sheet =
     \<lparr>columns = [''code'', ''y''],
      rows = [map_of [(''code'', Txt ''a''), (''y'', Num 5)]]\<rparr>"

text \<open>Python's \<^verbatim>\<open>str.strip()\<close>, to say what a trimmed string is.\<close>

definition is_space :: "char \<Rightarrow> bool" where
  "is_space c = (c \<in> set [CHR '' '', CHR 0x09, CHR 0x0A, CHR 0x0B, CHR 0x0C, CHR 0x0D])"

definition py_strip :: "string \<Rightarrow> string" where
  "py_strip s = rev (dropWhile is_space (rev (dropWhile is_space s)))"

subsection \<open>Sheets to compare\<close>

text \<open>A sheet of texts, given by its column labels and the cells of each row.\<close>

definition sheet :: "string list \<Rightarrow> string option list list \<Rightarrow> string dataframe" where
  "sheet cols cells =
     \<lparr>columns = cols,
      rows = map (\<lambda>cs c. case map_of (zip cols cs) c of None \<Rightarrow> None | Some x \<Rightarrow> x) cells\<rparr>"

text \<open>Two sheets whose only keys differ in letter case and in a trailing blank.\<close>

definition upper_sheet :: "string dataframe" where
  "upper_sheet = sheet [''id'', ''v''] [[Some ''A '', Some ''1'']]"

definition lower_sheet :: "string dataframe" where
  "lower_sheet = sheet [''id'', ''v''] [[Some ''a'', Some ''2'']]"

text \<open>A sheet with the key \<^verbatim>\<open>a\<close> twice and a sheet with that key once.\<close>

definition twice_sheet :: "string dataframe" where
  "twice_sheet = sheet [''id'', ''name'', ''v'']
     [[Some ''a'', Some ''z'', Some ''1''],
      [Some ''a'', Some ''b'', Some ''2''],
      [None, Some ''n'', Some ''3'']]"

definition once_sheet :: "string dataframe" where
  "once_sheet = sheet [''id'', ''name'', ''v''] [[Some ''a'', Some ''z'', Some ''9'']]"

text \<open>
  An old and a new version of a sheet: the keys \<^verbatim>\<open>a\<close> and \<^verbatim>\<open>b\<close> once in each, a row
  without key in the old one, a row with a new key in the new one.
\<close>

definition old_sheet :: "string dataframe" where
  "old_sheet = sheet [''id'', ''name'', ''v'', ''note'']
     [[Some ''b'', Some ''y'', Some ''1'', None],
      [Some ''a'', Some ''x'', Some ''2'', Some ''m''],
      [None, Some ''n'', Some ''3'', None]]"

definition new_sheet :: "string dataframe" where
  "new_sheet = sheet [''id'', ''name'', ''v'', ''note'']
     [[Some ''a'', Some ''x'', Some ''5'', Some ''m''],
      [Some ''b'', Some ''y'', Some ''1'', None],
      [Some ''c'', Some ''w'', Some ''7'', None]]"

text \<open>A sheet with two rows that agree on the key and on the name.\<close>

definition tied_sheet :: "string dataframe" where
  "tied_sheet = sheet [''id'', ''name'', ''v'']
     [[Some ''a'', Some ''z'', Some ''1''],
      [Some ''a'', Some ''b'', Some ''2''],
      [Some ''a'', Some ''z'', Some ''3'']]"

text \<open>
  Two sorts for the single-column case: the insertion sort \<open>sort_key\<close>, which is what the
  quicksort of numpy does on the short tables of these examples, and a sort that reverses
  the order of rows with equal keys.
\<close>

definition tie_reversing_sort :: "('r \<Rightarrow> 'k::linorder) \<Rightarrow> 'r list \<Rightarrow> 'r list" where
  "tie_reversing_sort k rs = sort_key k (rev rs)"

text \<open>
  The normal form of a key in the words of the specification: trimmed and in lower case
  (for the letters of ASCII).
\<close>

definition py_lower :: "string \<Rightarrow> string" where
  "py_lower s =
     map (\<lambda>c. if CHR ''A'' \<le> c \<and> c \<le> CHR ''Z'' then char_of (of_char c + (32::nat)) else c) s"

definition spec_normalized_key :: "string \<Rightarrow> string" where
  "spec_normalized_key s = py_lower (py_strip s)"

section \<open>Properties of the anomaly detector\<close>

subsection \<open>Flag and direction go together\<close>

lemma flag_row_consistent:
  assumes "\<forall>r \<in> set fl. flag_consistent r"
  shows "\<forall>r \<in> set (flag_row g b j fl). flag_consistent r"
proof (cases "anomaly (fl ! fst (g ! j))")
  case True
  then show ?thesis using assms by (simp add: flag_row_def)
next
  case False
  let ?v = "(fl ! fst (g ! j))\<lparr>anomaly := True,
     anomaly_direction := Some (if acr (snd (g ! j)) > b then Increase else Decrease)\<rparr>"
  have "flag_consistent ?v" by (simp add: flag_consistent_def)
  moreover have "set (fl[fst (g ! j) := ?v]) \<subseteq> insert ?v (set fl)"
    by (rule set_update_subset_insert)
  ultimately show ?thesis using assms False
    by (auto simp: flag_row_def Let_def)
qed

lemma fold_flag_row_consistent:
  "\<forall>r \<in> set fl. flag_consistent r \<Longrightarrow>
   \<forall>r \<in> set (fold (flag_row g b) js fl). flag_consistent r"
proof (induction js arbitrary: fl)
  case Nil
  then show ?case by simp
next
  case (Cons j js)
  from Cons.prems have "\<forall>r \<in> set (flag_row g b j fl). flag_consistent r"
    by (rule flag_row_consistent)
  then show ?case using Cons.IH by simp
qed

lemma scan_step_consistent:
  "\<forall>r \<in> set (snd st). flag_consistent r \<Longrightarrow>
   \<forall>r \<in> set (snd (scan_step p g i st)). flag_consistent r"
  using fold_flag_row_consistent [of "snd st" g]
  by (simp add: scan_step_def Let_def)

lemma fold_scan_step_consistent:
  "\<forall>r \<in> set (snd st). flag_consistent r \<Longrightarrow>
   \<forall>r \<in> set (snd (fold (scan_step p g) is st)). flag_consistent r"
proof (induction "is" arbitrary: st)
  case Nil
  then show ?case by simp
next
  case (Cons i "is")
  from Cons.prems have "\<forall>r \<in> set (snd (scan_step p g i st)). flag_consistent r"
    by (rule scan_step_consistent)
  then show ?case using Cons.IH by simp
qed

lemma scan_group_consistent:
  "\<forall>r \<in> set fl. flag_consistent r \<Longrightarrow> \<forall>r \<in> set (scan_group p g fl). flag_consistent r"
  using fold_scan_step_consistent [of "(0, fl)" p g]
  by (simp add: scan_group_def)

lemma fold_scan_group_consistent:
  "\<forall>r \<in> set fl. flag_consistent r \<Longrightarrow>
   \<forall>r \<in> set (fold (scan_group p) gs fl). flag_consistent r"
proof (induction gs arbitrary: fl)
  case Nil
  then show ?case by simp
next
  case (Cons g gs)
  from Cons.prems have "\<forall>r \<in> set (scan_group p g fl). flag_consistent r"
    by (rule scan_group_consistent)
  then show ?case using Cons.IH by simp
qed

lemma init_flags_consistent: "flag_consistent (init_flags r)"
  by (simp add: init_flags_def flag_consistent_def)

text \<open>
  Claim C10. After \<^verbatim>\<open>flag_anomalies\<close> every row of the annotated table has its flag set
  exactly when its direction is \<^verbatim>\<open>'increase'\<close> or \<^verbatim>\<open>'decrease'\<close>, and its flag clear
  exactly when its direction is \<^verbatim>\<open>None\<close>.
\<close>

theorem flag_anomalies_consistent:
  "\<forall>r \<in> set (flag_anomalies p df).
     (anomaly r \<longleftrightarrow> anomaly_direction r = Some Increase \<or> anomaly_direction r = Some Decrease)
     \<and> (\<not> anomaly r \<longleftrightarrow> anomaly_direction r = None)"
proof -
  have "\<forall>r \<in> set (map init_flags df). flag_consistent r"
    by (simp add: init_flags_consistent)
  then have "\<forall>r \<in> set (flag_anomalies p df). flag_consistent r"
    unfolding flag_anomalies_def Let_def by (rule fold_scan_group_consistent)
  then show ?thesis unfolding flag_consistent_def by blast
qed

theorem flag_anomalies_consistent_witness:
  "flag_anomalies default_params shifting_series ! 7
     \<in> set (flag_anomalies default_params shifting_series)
   \<and> anomaly (flag_anomalies default_params shifting_series ! 7)
   \<and> anomaly_direction (flag_anomalies default_params shifting_series ! 7) \<noteq> None"
proof -
  let ?F = "flag_anomalies default_params shifting_series"
  have "7 < length ?F" by code_simp
  then have m: "?F ! 7 \<in> set ?F" by (rule nth_mem)
  have a: "anomaly (?F ! 7)" by code_simp
  from m a flag_anomalies_consistent [of default_params shifting_series]
  show ?thesis by blast
qed


subsection \<open>The counter\<close>

lemma streak_below: "n \<le> recent_window_size p \<Longrightarrow> streak p us n = 0"
  by (cases n) simp_all

lemma streak_le: "streak p us n \<le> n - recent_window_size p"
proof (induction n)
  case 0
  then show ?case by simp
next
  case (Suc n)
  then show ?case by (cases "n < recent_window_size p") auto
qed

text \<open>
  The window of a confirming row starts at or after the first scanned row, so that the
  lower end \<^verbatim>\<open>i - shift_window + 1\<close> of the loop over \<open>j\<close> is never negative.
\<close>

lemma confirming_window_start:
  assumes "confirming p us i"
  shows "recent_window_size p + shift_window p \<le> i + 1"
proof -
  from assms have "shift_window p \<le> streak p us (Suc i)" and "recent_window_size p \<le> i"
    unfolding confirming_def by blast+
  moreover have "streak p us (Suc i) \<le> Suc i - recent_window_size p" by (rule streak_le)
  ultimately show ?thesis by linarith
qed

lemma window_empty_iff:
  "i < length us \<Longrightarrow> historical_window p us i = [] \<longleftrightarrow> recent_window_size p = 0"
  by (auto simp: historical_window_def)

lemma scan_step_cases:
  "scan_step p g i (c, fl) =
     (if candidate p (usages g) i then
        if shift_window p \<le> c + 1
        then (c + 1, fold (flag_row g (baseline_usage p (usages g) i))
                       [i + 1 - shift_window p ..< i + 1] fl)
        else (c + 1, fl)
      else if evaluated p (usages g) i then (0, fl)
      else (c, fl))"
  by (simp add: scan_step_def candidate_def evaluated_def baseline_usage_def Let_def)

lemma scan_step_streak:
  assumes "recent_window_size p \<le> n"
  shows "fst (scan_step p g n (streak p (usages g) n, fl)) = streak p (usages g) (Suc n)"
  using assms by (simp add: scan_step_cases)

lemma scan_step_flags:
  assumes "recent_window_size p \<le> n"
  shows "snd (scan_step p g n (streak p (usages g) n, fl)) =
     (if confirming p (usages g) n
      then fold (flag_row g (baseline_usage p (usages g) n)) [n + 1 - shift_window p ..< n + 1] fl
      else fl)"
  using assms by (simp add: scan_step_cases confirming_def)

subsection \<open>The writes of one confirmation\<close>

lemma flag_row_length: "length (flag_row g b j fl) = length fl"
  by (simp add: flag_row_def Let_def)

lemma flag_row_nth:
  assumes "fst (g ! j) < length fl"
  shows "flag_row g b j fl ! x =
     (if x = fst (g ! j) \<and> \<not> anomaly (fl ! x)
      then (fl ! x)\<lparr>anomaly := True,
             anomaly_direction := Some (direction_against (acr (snd (g ! j))) b)\<rparr>
      else fl ! x)"
  using assms by (auto simp: flag_row_def Let_def direction_against_def nth_list_update)

lemma fold_flag_row_length: "length (fold (flag_row g b) js fl) = length fl"
  by (induction js arbitrary: fl) (simp_all add: flag_row_length)

lemma label_inj:
  assumes "distinct (map fst g)" "j < length g" "k < length g" "fst (g ! j) = fst (g ! k)"
  shows "j = k"
  using nth_eq_iff_index_eq [OF assms(1), of j k] assms(2,3,4) by simp

lemma fold_flag_row_other:
  assumes "\<forall>k \<in> set js. k < length g" "x \<notin> fst ` set g"
  shows "fold (flag_row g b) js fl ! x = fl ! x"
  using assms
proof (induction js arbitrary: fl)
  case Nil
  then show ?case by simp
next
  case (Cons k js)
  then have "k < length g" by simp
  then have "fst (g ! k) \<in> fst ` set g" by simp
  with Cons.prems(2) have "x \<noteq> fst (g ! k)" by blast
  then have "flag_row g b k fl ! x = fl ! x" by (simp add: flag_row_def Let_def)
  with Cons show ?case by simp
qed

lemma fold_flag_row_nth:
  assumes "distinct (map fst g)" "\<forall>k < length g. fst (g ! k) < length fl"
    "\<forall>k \<in> set js. k < length g" "j < length g"
  shows "fold (flag_row g b) js fl ! fst (g ! j) =
     (if j \<in> set js \<and> \<not> anomaly (fl ! fst (g ! j))
      then (fl ! fst (g ! j))\<lparr>anomaly := True,
             anomaly_direction := Some (direction_against (acr (snd (g ! j))) b)\<rparr>
      else fl ! fst (g ! j))"
  using assms(2,3)
proof (induction js arbitrary: fl)
  case Nil
  then show ?case by simp
next
  case (Cons k js)
  let ?fl = "flag_row g b k fl"
  from Cons.prems have k: "k < length g" and kl: "fst (g ! k) < length fl" by simp_all
  have "\<forall>k < length g. fst (g ! k) < length ?fl"
    using Cons.prems(1) by (simp add: flag_row_length)
  moreover have "\<forall>k \<in> set js. k < length g" using Cons.prems(2) by simp
  ultimately have IH: "fold (flag_row g b) js ?fl ! fst (g ! j) =
     (if j \<in> set js \<and> \<not> anomaly (?fl ! fst (g ! j))
      then (?fl ! fst (g ! j))\<lparr>anomaly := True,
             anomaly_direction := Some (direction_against (acr (snd (g ! j))) b)\<rparr>
      else ?fl ! fst (g ! j))"
    by (rule Cons.IH)
  show ?case
  proof (cases "j = k")
    case True
    then show ?thesis using IH kl by (simp add: flag_row_nth)
  next
    case False
    then have "fst (g ! j) \<noteq> fst (g ! k)"
      using label_inj [OF assms(1) assms(4) k] by blast
    then have "?fl ! fst (g ! j) = fl ! fst (g ! j)"
      using kl by (simp add: flag_row_nth)
    then show ?thesis using IH False by simp
  qed
qed

subsection \<open>The scan of a group\<close>

lemma find_append_cases:
  "find P (xs @ ys) = (case find P xs of None \<Rightarrow> find P ys | Some x \<Rightarrow> Some x)"
  by (induction xs) simp_all

lemma first_confirming_Suc:
  "first_confirming p us (Suc n) j =
     (case first_confirming p us n j of
        Some i \<Rightarrow> Some i
      | None \<Rightarrow> if j \<le> n \<and> confirming p us n \<and> n + 1 - shift_window p \<le> j then Some n
                else None)"
proof (cases "j \<le> n")
  case True
  then have "[j ..< Suc n] = [j ..< n] @ [n]" by simp
  then show ?thesis using True
    by (simp add: first_confirming_def find_append_cases split: option.splits)
next
  case False
  then show ?thesis by (simp add: first_confirming_def)
qed

lemma first_confirming_below:
  assumes "n \<le> recent_window_size p"
  shows "first_confirming p us n j = None"
proof -
  have "\<not> confirming p us i" if "i < n" for i
    using that assms by (simp add: confirming_def)
  then show ?thesis by (auto simp: first_confirming_def find_None_iff)
qed

lemma usages_nth: "j < length g \<Longrightarrow> usages g ! j = acr (snd (g ! j))"
  by (simp add: usages_def case_prod_unfold)

lemma scanned_start:
  assumes "n \<le> recent_window_size p"
  shows "scanned p g fl n (0, fl)"
  using assms
  by (simp add: scanned_def streak_below expected_row_def first_confirming_below Let_def)

lemma scanned_step:
  assumes wf: "distinct (map fst g)" "\<forall>k < length g. fst (g ! k) < length fl"
    and n: "recent_window_size p \<le> n" "n < length g"
    and st: "scanned p g fl n st"
  shows "scanned p g fl (Suc n) (scan_step p g n st)"
proof -
  let ?us = "usages g"
  let ?b = "baseline_usage p ?us n"
  let ?js = "[n + 1 - shift_window p ..< n + 1]"
  obtain c fn where [simp]: "st = (c, fn)" by (cases st)
  from st have c: "c = streak p ?us n" and len: "length fn = length fl"
    and rows: "\<forall>j < length g. fn ! fst (g ! j) = expected_row p g fl n j"
    and other: "\<forall>x. x \<notin> fst ` set g \<longrightarrow> fn ! x = fl ! x"
    by (simp_all add: scanned_def)
  let ?fl = "snd (scan_step p g n st)"
  have fst_eq: "fst (scan_step p g n st) = streak p ?us (Suc n)"
    using scan_step_streak [OF n(1)] c by simp
  have snd_eq: "?fl = (if confirming p ?us n then fold (flag_row g ?b) ?js fn else fn)"
    using scan_step_flags [OF n(1)] c by simp
  have js: "\<forall>k \<in> set ?js. k < length g" using n(2) by auto
  have len': "length ?fl = length fl"
    by (simp only: snd_eq) (simp add: fold_flag_row_length len)
  have other': "\<forall>x. x \<notin> fst ` set g \<longrightarrow> ?fl ! x = fl ! x"
    using other fold_flag_row_other [OF js] by (simp only: snd_eq) simp
  have rows': "?fl ! fst (g ! j) = expected_row p g fl (Suc n) j" if j: "j < length g" for j
  proof (cases "confirming p ?us n")
    case False
    then have "first_confirming p ?us (Suc n) j = first_confirming p ?us n j"
      by (simp add: first_confirming_Suc split: option.splits)
    then have "expected_row p g fl (Suc n) j = expected_row p g fl n j"
      by (simp only: expected_row_def)
    then show ?thesis using False rows j by (simp only: snd_eq) simp
  next
    case True
    have wf': "\<forall>k < length g. fst (g ! k) < length fn" using wf(2) len by simp
    have w: "?fl ! fst (g ! j) =
       (if j \<in> set ?js \<and> \<not> anomaly (fn ! fst (g ! j))
        then (fn ! fst (g ! j))\<lparr>anomaly := True,
               anomaly_direction := Some (direction_against (acr (snd (g ! j))) ?b)\<rparr>
        else fn ! fst (g ! j))"
      using fold_flag_row_nth [OF wf(1) wf' js j] True by (simp only: snd_eq) simp
    have fn: "fn ! fst (g ! j) = expected_row p g fl n j" using rows j by simp
    show ?thesis
    proof (cases "anomaly (fl ! fst (g ! j))")
      case True
      then show ?thesis using w fn by (simp add: expected_row_def Let_def)
    next
      case unflagged: False
      show ?thesis
      proof (cases "first_confirming p ?us n j")
        case (Some i)
        then have "first_confirming p ?us (Suc n) j = Some i"
          by (simp add: first_confirming_Suc)
        then show ?thesis using w fn Some unflagged by (simp add: expected_row_def Let_def)
      next
        case None
        then have f: "first_confirming p ?us (Suc n) j =
            (if j \<le> n \<and> n + 1 - shift_window p \<le> j then Some n else None)"
          using True by (simp add: first_confirming_Suc)
        have m: "j \<in> set ?js \<longleftrightarrow> j \<le> n \<and> n + 1 - shift_window p \<le> j" by auto
        from None unflagged fn have "fn ! fst (g ! j) = fl ! fst (g ! j)"
          by (simp add: expected_row_def Let_def)
        then show ?thesis using w f m unflagged j
          by (simp add: expected_row_def Let_def usages_nth)
      qed
    qed
  qed
  from fst_eq len' rows' other' show ?thesis by (simp add: scanned_def)
qed

lemma scanned_fold:
  assumes wf: "distinct (map fst g)" "\<forall>k < length g. fst (g ! k) < length fl"
    and n: "n \<le> length g"
  shows "scanned p g fl n (fold (scan_step p g) [recent_window_size p ..< n] (0, fl))"
  using n
proof (induction n)
  case 0
  then show ?case by (simp add: scanned_start)
next
  case (Suc n)
  show ?case
  proof (cases "recent_window_size p \<le> n")
    case False
    then show ?thesis by (simp add: scanned_start)
  next
    case True
    from Suc have "scanned p g fl n (fold (scan_step p g) [recent_window_size p ..< n] (0, fl))"
      and "n < length g" by simp_all
    from scanned_step [OF wf True this(2) this(1)] True show ?thesis by simp
  qed
qed

lemma scan_group_rows:
  assumes "distinct (map fst g)" "\<forall>k < length g. fst (g ! k) < length fl"
  shows "length (scan_group p g fl) = length fl"
    and "j < length g \<Longrightarrow> scan_group p g fl ! fst (g ! j) = expected_row p g fl (length g) j"
    and "x \<notin> fst ` set g \<Longrightarrow> scan_group p g fl ! x = fl ! x"
  using scanned_fold [OF assms, of "length g" p]
  by (simp_all add: scanned_def scan_group_def)

subsection \<open>The groups of a table\<close>

lemma group_rows_set:
  "set (group_rows df k) = {(ix, r). ix < length df \<and> r = df ! ix \<and> group_key r = k}"
  by (auto simp: group_rows_def in_set_enumerate_eq)

lemma group_rows_labels:
  "distinct (map fst (group_rows df k))"
proof -
  let ?xs = "filter (\<lambda>(ix, r). group_key r = k) (enumerate 0 df)"
  have "distinct (map fst (enumerate 0 df))" by simp
  then have "distinct (map fst ?xs)" by (rule distinct_map_filter)
  moreover have "mset (map fst (group_rows df k)) = mset (map fst ?xs)"
    by (simp add: group_rows_def)
  then have "distinct (map fst (group_rows df k)) \<longleftrightarrow> distinct (map fst ?xs)"
    by (rule mset_eq_imp_distinct_iff)
  ultimately show ?thesis by blast
qed

lemma group_rows_in_range:
  assumes "j < length (group_rows df k)"
  shows "fst (group_rows df k ! j) < length df"
    and "snd (group_rows df k ! j) = df ! fst (group_rows df k ! j)"
    and "group_key (snd (group_rows df k ! j)) = k"
proof -
  obtain ix r where e: "group_rows df k ! j = (ix, r)" by (cases "group_rows df k ! j")
  from assms have "group_rows df k ! j \<in> set (group_rows df k)" by (rule nth_mem)
  then have m: "(ix, r) \<in> {(ix, r). ix < length df \<and> r = df ! ix \<and> group_key r = k}"
    by (simp only: e group_rows_set)
  from m have a: "ix < length df" by blast
  from m have b: "r = df ! ix" by blast
  from m have c: "group_key r = k" by blast
  show "fst (group_rows df k ! j) < length df" using a by (simp add: e)
  show "snd (group_rows df k ! j) = df ! fst (group_rows df k ! j)" using b by (simp add: e)
  show "group_key (snd (group_rows df k ! j)) = k" using c by (simp add: e)
qed

lemma group_rows_disjoint:
  assumes "k \<noteq> k'"
  shows "fst ` set (group_rows df k) \<inter> fst ` set (group_rows df k') = {}"
proof -
  have "False" if "x \<in> fst ` set (group_rows df k)" "x \<in> fst ` set (group_rows df k')" for x
  proof -
    from that(1) obtain r where "(x, r) \<in> set (group_rows df k)" by force
    then have 1: "group_key (df ! x) = k" unfolding group_rows_set by blast
    from that(2) obtain r' where "(x, r') \<in> set (group_rows df k')" by force
    then have "group_key (df ! x) = k'" unfolding group_rows_set by blast
    with 1 assms show False by simp
  qed
  then show ?thesis by blast
qed

lemma fold_scan_group_keeps:
  assumes "\<forall>g \<in> set gs. distinct (map fst g) \<and> (\<forall>k < length g. fst (g ! k) < length fl)"
  shows "length (fold (scan_group p) gs fl) = length fl
         \<and> (\<forall>x. (\<forall>g \<in> set gs. x \<notin> fst ` set g) \<longrightarrow> fold (scan_group p) gs fl ! x = fl ! x)"
  using assms
proof (induction gs arbitrary: fl)
  case Nil
  then show ?case by simp
next
  case (Cons g gs)
  let ?fl = "scan_group p g fl"
  from Cons.prems have g: "distinct (map fst g)" "\<forall>k < length g. fst (g ! k) < length fl"
    by simp_all
  note sg = scan_group_rows [OF g, where p = p]
  have "\<forall>h \<in> set gs. distinct (map fst h) \<and> (\<forall>k < length h. fst (h ! k) < length ?fl)"
    using Cons.prems by (simp add: sg(1))
  from Cons.IH [OF this] sg(1) sg(3) show ?case by simp
qed

lemma scan_groups_rows:
  assumes wf: "\<forall>h \<in> set (pre @ g # post).
                 distinct (map fst h) \<and> (\<forall>k < length h. fst (h ! k) < length fl)"
    and apart: "\<forall>h \<in> set pre \<union> set post. fst ` set g \<inter> fst ` set h = {}"
    and j: "j < length g"
  shows "fold (scan_group p) (pre @ g # post) fl ! fst (g ! j) = expected_row p g fl (length g) j"
proof -
  let ?x = "fst (g ! j)"
  let ?f1 = "fold (scan_group p) pre fl"
  let ?f2 = "scan_group p g ?f1"
  from j have x: "?x \<in> fst ` set g" by simp
  have notin: "\<forall>h \<in> set pre \<union> set post. ?x \<notin> fst ` set h" using apart x by blast
  have "\<forall>h \<in> set pre. distinct (map fst h) \<and> (\<forall>k < length h. fst (h ! k) < length fl)"
    using wf by simp
  note kp = fold_scan_group_keeps [OF this, of p]
  have pre: "length ?f1 = length fl" "?f1 ! ?x = fl ! ?x"
    using kp notin by blast+
  have g: "distinct (map fst g)" "\<forall>k < length g. fst (g ! k) < length ?f1"
    using wf pre(1) by simp_all
  note sg = scan_group_rows [OF g, where p = p]
  have "?f2 ! ?x = expected_row p g ?f1 (length g) j" using sg(2) j by simp
  also have "\<dots> = expected_row p g fl (length g) j"
    by (simp add: expected_row_def pre(2))
  finally have mid: "?f2 ! ?x = expected_row p g fl (length g) j" .
  have "\<forall>h \<in> set post. distinct (map fst h) \<and> (\<forall>k < length h. fst (h ! k) < length ?f2)"
    using wf sg(1) pre(1) by simp
  from fold_scan_group_keeps [OF this, of p] notin
  have "fold (scan_group p) post ?f2 ! ?x = ?f2 ! ?x" by blast
  with mid show ?thesis by simp
qed

lemma groupby_split:
  assumes "g \<in> set (groupby df)"
  obtains k ks1 ks2 where "g = group_rows df k"
    and "groupby df = map (group_rows df) ks1 @ g # map (group_rows df) ks2"
    and "k \<notin> set ks1" "k \<notin> set ks2"
proof -
  let ?keys = "sort (remdups (map group_key df))"
  from assms have "g \<in> group_rows df ` set ?keys" by (simp only: groupby_def set_map)
  then obtain k where k: "k \<in> set ?keys" "g = group_rows df k" by blast
  from split_list [OF k(1)] obtain ks1 ks2 where s: "?keys = ks1 @ k # ks2" by blast
  have "distinct ?keys" by simp
  with s have "k \<notin> set ks1" "k \<notin> set ks2" by auto
  moreover have "groupby df = map (group_rows df) ks1 @ g # map (group_rows df) ks2"
    using s k(2) by (simp add: groupby_def)
  ultimately show ?thesis using k(2) that by blast
qed

lemma flag_anomalies_rows:
  assumes "g \<in> set (groupby (map init_flags df))" "j < length g"
  shows "flag_anomalies p df ! fst (g ! j)
           = expected_row p g (map init_flags df) (length g) j"
proof -
  let ?fl = "map init_flags df"
  from assms(1) obtain k ks1 ks2 where g: "g = group_rows ?fl k"
    and s: "groupby ?fl = map (group_rows ?fl) ks1 @ g # map (group_rows ?fl) ks2"
    and k: "k \<notin> set ks1" "k \<notin> set ks2"
    by (rule groupby_split)
  have wf: "\<forall>h \<in> set (map (group_rows ?fl) ks1 @ g # map (group_rows ?fl) ks2).
       distinct (map fst h) \<and> (\<forall>k < length h. fst (h ! k) < length ?fl)"
    using group_rows_labels [of ?fl] group_rows_in_range(1) [of _ ?fl] g by auto
  have apart: "\<forall>h \<in> set (map (group_rows ?fl) ks1) \<union> set (map (group_rows ?fl) ks2).
       fst ` set g \<inter> fst ` set h = {}"
  proof
    fix h
    assume "h \<in> set (map (group_rows ?fl) ks1) \<union> set (map (group_rows ?fl) ks2)"
    then obtain k' where "k' \<in> set ks1 \<union> set ks2" and h: "h = group_rows ?fl k'"
      by (simp only: set_map) blast
    with k have "k \<noteq> k'" by blast
    then show "fst ` set g \<inter> fst ` set h = {}"
      unfolding g h by (rule group_rows_disjoint)
  qed
  show ?thesis unfolding flag_anomalies_def Let_def s
    by (rule scan_groups_rows [OF wf apart assms(2)])
qed

lemma groupby_covers:
  assumes "ix < length df"
  shows "\<exists>g \<in> set (groupby df). \<exists>j < length g. g ! j = (ix, df ! ix)"
proof -
  let ?g = "group_rows df (group_key (df ! ix))"
  have "group_key (df ! ix) \<in> set (sort (remdups (map group_key df)))"
    using assms by simp
  then have "?g \<in> set (groupby df)" by (simp add: groupby_def)
  moreover have "(ix, df ! ix) \<in> set ?g" using assms by (simp add: group_rows_set)
  then have "\<exists>j < length ?g. ?g ! j = (ix, df ! ix)" by (simp only: in_set_conv_nth)
  ultimately show ?thesis by blast
qed

subsection \<open>Which rows are flagged\<close>

lemma confirmed_rows_iff:
  "j \<in> confirmed_rows p us n \<longleftrightarrow>
     (\<exists>i. i < n \<and> confirming p us i \<and> i + 1 - shift_window p \<le> j \<and> j \<le> i)"
proof -
  have u: "j \<in> confirmed_rows p us n \<longleftrightarrow>
      (\<exists>i \<in> {recent_window_size p ..< n}.
         confirming p us i \<and> j \<in> {i + 1 - shift_window p .. i})"
    by (auto simp: confirmed_rows_def split: if_splits)
  have w: "recent_window_size p \<le> i" if "confirming p us i" for i
    using that unfolding confirming_def by blast
  show ?thesis
  proof
    assume "j \<in> confirmed_rows p us n"
    with u obtain i where "i \<in> {recent_window_size p ..< n}" "confirming p us i"
      "j \<in> {i + 1 - shift_window p .. i}" by blast
    then have "i < n \<and> confirming p us i \<and> i + 1 - shift_window p \<le> j \<and> j \<le> i" by simp
    then show "\<exists>i. i < n \<and> confirming p us i \<and> i + 1 - shift_window p \<le> j \<and> j \<le> i" ..
  next
    assume "\<exists>i. i < n \<and> confirming p us i \<and> i + 1 - shift_window p \<le> j \<and> j \<le> i"
    then obtain i where i: "i < n" "confirming p us i" "i + 1 - shift_window p \<le> j" "j \<le> i"
      by blast
    from w [OF i(2)] i have "i \<in> {recent_window_size p ..< n}"
      "j \<in> {i + 1 - shift_window p .. i}" by simp_all
    with i(2) u show "j \<in> confirmed_rows p us n" by blast
  qed
qed

lemma find_SomeD: "find P xs = Some x \<Longrightarrow> P x \<and> x \<in> set xs"
  by (induction xs) (auto split: if_splits)

lemma first_confirming_SomeD:
  assumes "first_confirming p us n j = Some i"
  shows "j \<le> i" "i < n" "confirming p us i" "i + 1 - shift_window p \<le> j"
  using find_SomeD [OF assms [unfolded first_confirming_def]] by simp_all

lemma first_confirming_None_iff:
  "first_confirming p us n j = None \<longleftrightarrow> j \<notin> confirmed_rows p us n"
  by (auto simp: first_confirming_def find_None_iff confirmed_rows_iff)

lemma streak_run:
  assumes "recent_window_size p \<le> a" "\<forall>k \<in> {a .. a + d}. candidate p us k"
  shows "d + 1 \<le> streak p us (Suc (a + d))"
  using assms(2)
proof (induction d)
  case 0
  then show ?case using assms(1) by simp
next
  case (Suc d)
  then have "d + 1 \<le> streak p us (Suc (a + d))" by simp
  moreover have "candidate p us (a + Suc d)" using Suc.prems by simp
  ultimately show ?case using assms(1) by simp
qed

lemma run_confirmed:
  assumes "1 \<le> shift_window p" "recent_window_size p \<le> a" "b < n"
    "a + shift_window p \<le> b + 1" "\<forall>k \<in> {a .. b}. candidate p us k" "a \<le> j" "j \<le> b"
  shows "j \<in> confirmed_rows p us n"
proof -
  define i where "i = max j (a + shift_window p - 1)"
  have i: "a \<le> i" "i \<le> b" "j \<le> i" "i + 1 - shift_window p \<le> j" "a + shift_window p \<le> i + 1"
    using assms(1,4,6,7) by (auto simp: i_def)
  have "\<forall>k \<in> {a .. a + (i - a)}. candidate p us k" using assms(5) i(1,2) by auto
  from streak_run [OF assms(2) this] i(1)
  have "i - a + 1 \<le> streak p us (Suc i)" by simp
  with i(5) have "shift_window p \<le> streak p us (Suc i)" by linarith
  moreover have "candidate p us i" using assms(5) i(1,2) by simp
  ultimately have "confirming p us i" using assms(2) i(1) by (simp add: confirming_def)
  then show ?thesis using i assms(3) unfolding confirmed_rows_iff by (intro exI [of _ i]) simp
qed

text \<open>
  Claim C1, amended. The counter is not reset by a confirmation: the test is
  \<^verbatim>\<open>consecutive_anomalies >= shift_window\<close>, and only an evaluated row that is no candidate
  sets the counter to zero. For every group, the rows flagged are those in the window of the
  last \<open>shift\<close> rows of some candidate row whose streak of candidates has reached \<open>shift\<close>;
  the windows of consecutive such rows overlap. With \<open>shift\<close> at least 1, every row of a run
  of at least \<open>shift\<close> consecutive candidates is flagged.
\<close>

theorem flagged_rows_are_sliding_windows:
  assumes "g \<in> set (groupby (map init_flags df))" and "j < length g"
  shows "(anomaly (flag_anomalies p df ! fst (g ! j))
            \<longleftrightarrow> j \<in> confirmed_rows p (usages g) (length g))
         \<and> (1 \<le> shift_window p \<and> recent_window_size p \<le> a \<and> b < length g
              \<and> a + shift_window p \<le> b + 1 \<and> (\<forall>k \<in> {a .. b}. candidate p (usages g) k)
              \<and> a \<le> j \<and> j \<le> b
            \<longrightarrow> anomaly (flag_anomalies p df ! fst (g ! j)))"
proof -
  let ?fl = "map init_flags df"
  obtain k where g: "g = group_rows ?fl k" using assms(1) by (auto simp: groupby_def)
  have "fst (g ! j) < length ?fl" using group_rows_in_range(1) assms(2) g by blast
  then have "\<not> anomaly (?fl ! fst (g ! j))" by (simp add: init_flags_def)
  then have iff: "anomaly (flag_anomalies p df ! fst (g ! j))
      \<longleftrightarrow> j \<in> confirmed_rows p (usages g) (length g)"
    unfolding flag_anomalies_rows [OF assms]
    using first_confirming_None_iff [of p "usages g" "length g" j]
    by (auto simp: expected_row_def Let_def split: option.splits)
  moreover have "anomaly (flag_anomalies p df ! fst (g ! j))"
    if "1 \<le> shift_window p \<and> recent_window_size p \<le> a \<and> b < length g
          \<and> a + shift_window p \<le> b + 1 \<and> (\<forall>k \<in> {a .. b}. candidate p (usages g) k)
          \<and> a \<le> j \<and> j \<le> b"
    using run_confirmed [of p a b "length g" "usages g" j] that iff by blast
  ultimately show ?thesis by blast
qed

text \<open>
  Claim C2, amended. A flagged row gets its direction once, at the first candidate row that
  confirms a window holding it, and the direction compares the flagged row's usage with the
  baseline of that confirming row (the median of the window rows before the confirming row),
  not with the baseline of the flagged row itself.
\<close>

theorem direction_against_confirming_baseline:
  assumes "g \<in> set (groupby (map init_flags df))" and "j < length g"
    and "anomaly (flag_anomalies p df ! fst (g ! j))"
  shows "\<exists>i. first_confirming p (usages g) (length g) j = Some i
           \<and> j \<le> i \<and> i < length g \<and> i + 1 - shift_window p \<le> j
           \<and> confirming p (usages g) i
           \<and> anomaly_direction (flag_anomalies p df ! fst (g ! j))
               = Some (if usages g ! j > median (historical_window p (usages g) i)
                       then Increase else Decrease)"
proof -
  let ?fl = "map init_flags df"
  obtain k where g: "g = group_rows ?fl k" using assms(1) by (auto simp: groupby_def)
  have "fst (g ! j) < length ?fl" using group_rows_in_range(1) assms(2) g by blast
  then have clear: "\<not> anomaly (?fl ! fst (g ! j))" by (simp add: init_flags_def)
  note row = flag_anomalies_rows [OF assms(1,2), of p]
  from assms(3) clear obtain i where i: "first_confirming p (usages g) (length g) j = Some i"
    unfolding row by (auto simp: expected_row_def Let_def split: option.splits)
  note d = first_confirming_SomeD [OF i]
  have "anomaly_direction (flag_anomalies p df ! fst (g ! j))
      = Some (if usages g ! j > median (historical_window p (usages g) i)
              then Increase else Decrease)"
    unfolding row using clear i
    by (simp add: expected_row_def Let_def direction_against_def baseline_usage_def)
  with i d show ?thesis by blast
qed

theorem flagged_rows_are_sliding_windows_witness:
  "hd (groupby (map init_flags long_run_series)) \<in> set (groupby (map init_flags long_run_series))
   \<and> 10 < length (hd (groupby (map init_flags long_run_series)))
   \<and> fst (hd (groupby (map init_flags long_run_series)) ! 10) = 10
   \<and> 10 \<in> confirmed_rows default_params (usages (hd (groupby (map init_flags long_run_series))))
            (length (hd (groupby (map init_flags long_run_series))))
   \<and> anomaly (flag_anomalies default_params long_run_series ! 10)"
proof -
  let ?G = "groupby (map init_flags long_run_series)"
  have "?G \<noteq> []" by code_simp
  then have m: "hd ?G \<in> set ?G" by (rule hd_in_set)
  have n: "10 < length (hd ?G)" by code_simp
  have l: "fst (hd ?G ! 10) = 10" by code_simp
  have c: "10 \<in> confirmed_rows default_params (usages (hd ?G)) (length (hd ?G))" by code_simp
  from flagged_rows_are_sliding_windows [OF m n, of default_params] c
  have "anomaly (flag_anomalies default_params long_run_series ! fst (hd ?G ! 10))" by blast
  then have "anomaly (flag_anomalies default_params long_run_series ! 10)" by (simp only: l)
  with m n l c show ?thesis by blast
qed

text \<open>
  The claim as stated fails: after seven days at 100, four candidates in a row are all
  flagged, where the state machine of the specification, which starts counting anew after
  the confirmation at the third, flags three.
\<close>

theorem counter_reset_counterexample:
  "map anomaly (flag_anomalies default_params long_run_series)
     = [False, False, False, False, False, False, False, True, True, True, True]
   \<and> spec_machine default_params (map acr long_run_series)
     = [False, False, False, False, False, False, False, True, True, True, False]"
  by code_simp

theorem direction_against_confirming_baseline_witness:
  "hd (groupby (map init_flags shifting_series)) \<in> set (groupby (map init_flags shifting_series))
   \<and> 7 < length (hd (groupby (map init_flags shifting_series)))
   \<and> fst (hd (groupby (map init_flags shifting_series)) ! 7) = 7
   \<and> anomaly (flag_anomalies default_params shifting_series ! 7)
   \<and> first_confirming default_params (usages (hd (groupby (map init_flags shifting_series))))
        (length (hd (groupby (map init_flags shifting_series)))) 7 = Some 9
   \<and> anomaly_direction (flag_anomalies default_params shifting_series ! 7) = Some Decrease"
proof -
  let ?G = "groupby (map init_flags shifting_series)"
  let ?us = "usages (hd ?G)"
  have "?G \<noteq> []" by code_simp
  then have m: "hd ?G \<in> set ?G" by (rule hd_in_set)
  have n: "7 < length (hd ?G)" by code_simp
  have l: "fst (hd ?G ! 7) = 7" by code_simp
  have a: "anomaly (flag_anomalies default_params shifting_series ! 7)" by code_simp
  then have a': "anomaly (flag_anomalies default_params shifting_series ! fst (hd ?G ! 7))"
    by (simp only: l)
  have f: "first_confirming default_params ?us (length (hd ?G)) 7 = Some 9" by code_simp
  have d: "(if ?us ! 7 > median (historical_window default_params ?us 9)
            then Increase else Decrease) = Decrease"
    by code_simp
  from direction_against_confirming_baseline [OF m n a'] f
  have "anomaly_direction (flag_anomalies default_params shifting_series ! fst (hd ?G ! 7))
      = Some (if ?us ! 7 > median (historical_window default_params ?us 9)
              then Increase else Decrease)"
    by auto
  then have "anomaly_direction (flag_anomalies default_params shifting_series ! 7)
      = Some Decrease"
    by (simp only: l d)
  with m n l a f show ?thesis by blast
qed

text \<open>
  The claim as stated fails: day 7 has the usage 200 and its own baseline is 100, so that
  its direction would be an increase; it is flagged at day 9, whose baseline is 300, and its
  direction is a decrease.
\<close>

theorem own_baseline_counterexample:
  "acr (shifting_series ! 7) = 200
   \<and> baseline_usage default_params (map acr shifting_series) 7 = 100
   \<and> baseline_usage default_params (map acr shifting_series) 9 = 300
   \<and> map anomaly (flag_anomalies default_params shifting_series)
       = [False, False, False, False, False, False, False, True, True, True]
   \<and> anomaly_direction (flag_anomalies default_params shifting_series ! 7) = Some Decrease"
  by code_simp

section \<open>Properties of the forecast comparison\<close>

lemma similarity_percent_eq:
  "similarity_percent s1 s2 = Some (if s1 \<noteq> 0 then (1 - \<bar>s1 - s2\<bar> / s1) * 100 else 0)"
  by (simp add: similarity_percent_def checked_div_def)

lemma add_calculations_eq:
  "add_calculations r =
     Some \<lparr>pivot_index = pivot_index r, source1 = source1 r, source2 = source2 r,
           difference = source1 r - source2 r,
           similarity = (if source1 r \<noteq> 0
                         then (1 - \<bar>source1 r - source2 r\<bar> / source1 r) * 100 else 0)\<rparr>"
  by (simp add: add_calculations_def similarity_percent_eq)

lemma calculate_rows_eq: "calculate_rows rs = Some (map (the \<circ> add_calculations) rs)"
  by (induction rs) (simp_all add: add_calculations_eq)

lemma calculated_row:
  assumes "c \<in> set (map (the \<circ> add_calculations) rs)"
  shows "similarity c = (if source1 c \<noteq> 0 then (1 - \<bar>source1 c - source2 c\<bar> / source1 c) * 100 else 0)
         \<and> difference c = source1 c - source2 c"
proof -
  from assms obtain r where "c = the (add_calculations r)" by auto
  then show ?thesis by (simp add: add_calculations_eq)
qed

lemma the_add_calculations:
  "(the \<circ> add_calculations) =
     (\<lambda>r. \<lparr>pivot_index = pivot_index r, source1 = source1 r, source2 = source2 r,
            difference = source1 r - source2 r,
            similarity = (if source1 r \<noteq> 0
                          then (1 - \<bar>source1 r - source2 r\<bar> / source1 r) * 100 else 0)\<rparr>)"
  by (rule ext) (simp add: add_calculations_eq)

text \<open>
  Claim C6. The calculation never fails on a division by zero. Its output holds, for each
  row of the pivot table, that row with \<^verbatim>\<open>Difference\<close> equal to \<open>source1 - source2\<close> and
  \<^verbatim>\<open>Similarity %\<close> equal to \<open>(1 - |source1 - source2| / source1) * 100\<close> when \<open>source1\<close> is
  not zero and to \<open>0\<close> when it is, and nothing else; the rows are in the order of the sort. For
  a pivot row with 100 and 80 the output row has the difference 20 and the similarity 80; for
  a first source of 0 the similarity is 0 whatever the second.
\<close>

theorem similarity_formula:
  "(\<exists>out. analyse_calculations pivot_table = Some out
      \<and> mset out =
          image_mset
            (\<lambda>r. \<lparr>pivot_index = pivot_index r, source1 = source1 r, source2 = source2 r,
                   difference = source1 r - source2 r,
                   similarity = (if source1 r \<noteq> 0
                                 then (1 - \<bar>source1 r - source2 r\<bar> / source1 r) * 100
                                 else 0)\<rparr>)
            (mset pivot_table)
      \<and> sorted (map (\<lambda>r. (- difference r, similarity r)) out)
      \<and> length out = length pivot_table
      \<and> (\<forall>r \<in> set out.
           similarity r =
             (if source1 r \<noteq> 0 then (1 - \<bar>source1 r - source2 r\<bar> / source1 r) * 100 else 0)
           \<and> difference r = source1 r - source2 r))
   \<and> analyse_calculations [\<lparr>pivot_index = ix, source1 = 100, source2 = 80\<rparr>]
       = Some [\<lparr>pivot_index = ix, source1 = 100, source2 = 80, difference = 20, similarity = 80\<rparr>]
   \<and> analyse_calculations [\<lparr>pivot_index = ix, source1 = 0, source2 = s2\<rparr>]
       = Some [\<lparr>pivot_index = ix, source1 = 0, source2 = s2, difference = - s2, similarity = 0\<rparr>]
   \<and> add_calculations \<lparr>pivot_index = ix, source1 = 100, source2 = 80\<rparr>
       = Some \<lparr>pivot_index = ix, source1 = 100, source2 = 80, difference = 20, similarity = 80\<rparr>
   \<and> similarity_percent 0 s2 = Some 0"
proof (intro conjI)
  let ?g = "\<lambda>r. \<lparr>pivot_index = pivot_index r, source1 = source1 r, source2 = source2 r,
                   difference = source1 r - source2 r,
                   similarity = (if source1 r \<noteq> 0
                                 then (1 - \<bar>source1 r - source2 r\<bar> / source1 r) * 100
                                 else 0)\<rparr>"
  let ?cs = "map (the \<circ> add_calculations) pivot_table"
  let ?out = "sort_key (\<lambda>r. (- difference r, similarity r)) ?cs"
  have "analyse_calculations pivot_table = Some ?out"
    by (simp add: analyse_calculations_def calculate_rows_eq)
  moreover have "mset ?out = image_mset ?g (mset pivot_table)"
    by (simp only: mset_sort mset_map the_add_calculations)
  moreover have "sorted (map (\<lambda>r. (- difference r, similarity r)) ?out)"
    by (rule sorted_sort_key)
  moreover have "length ?out = length pivot_table" by simp
  moreover have "\<forall>r \<in> set ?out.
      similarity r =
        (if source1 r \<noteq> 0 then (1 - \<bar>source1 r - source2 r\<bar> / source1 r) * 100 else 0)
      \<and> difference r = source1 r - source2 r"
    using calculated_row [of _ pivot_table] by (simp only: set_sort) blast
  ultimately show "\<exists>out. analyse_calculations pivot_table = Some out
      \<and> mset out = image_mset ?g (mset pivot_table)
      \<and> sorted (map (\<lambda>r. (- difference r, similarity r)) out)
      \<and> length out = length pivot_table
      \<and> (\<forall>r \<in> set out.
           similarity r =
             (if source1 r \<noteq> 0 then (1 - \<bar>source1 r - source2 r\<bar> / source1 r) * 100 else 0)
           \<and> difference r = source1 r - source2 r)"
    by blast
next
  show "analyse_calculations [\<lparr>pivot_index = ix, source1 = 100, source2 = 80\<rparr>]
       = Some [\<lparr>pivot_index = ix, source1 = 100, source2 = 80, difference = 20, similarity = 80\<rparr>]"
    by (simp add: analyse_calculations_def add_calculations_eq)
next
  show "analyse_calculations [\<lparr>pivot_index = ix, source1 = 0, source2 = s2\<rparr>]
       = Some [\<lparr>pivot_index = ix, source1 = 0, source2 = s2, difference = - s2, similarity = 0\<rparr>]"
    by (simp add: analyse_calculations_def add_calculations_eq)
next
  show "add_calculations \<lparr>pivot_index = ix, source1 = 100, source2 = 80\<rparr>
       = Some \<lparr>pivot_index = ix, source1 = 100, source2 = 80, difference = 20, similarity = 80\<rparr>"
    by (simp add: add_calculations_eq)
next
  show "similarity_percent 0 s2 = Some 0" by (simp add: similarity_percent_def)
qed

theorem similarity_formula_witness:
  "analyse_calculations forecast_pivot = Some forecast_result
   \<and> mset forecast_result =
       {#\<lparr>pivot_index = [''c''], source1 = 50, source2 = 50, difference = 0, similarity = 100\<rparr>,
         \<lparr>pivot_index = [''b''], source1 = 0, source2 = 30, difference = - 30, similarity = 0\<rparr>,
         \<lparr>pivot_index = [''a''], source1 = 100, source2 = 80, difference = 20, similarity = 80\<rparr>#}
   \<and> forecast_result ! 0 \<in> set forecast_result
   \<and> similarity (forecast_result ! 0) = 80
   \<and> difference (forecast_result ! 0) = 20"
proof -
  have e: "analyse_calculations forecast_pivot = Some forecast_result" by code_simp
  have m: "forecast_result ! 0 \<in> set forecast_result"
    by (simp add: forecast_result_def)
  have s: "source1 (forecast_result ! 0) = 100" "source2 (forecast_result ! 0) = 80"
    by (simp_all add: forecast_result_def)
  note t = similarity_formula [of forecast_pivot "[]" 0]
  from t e have ms: "mset forecast_result =
      image_mset
        (\<lambda>r. \<lparr>pivot_index = pivot_index r, source1 = source1 r, source2 = source2 r,
               difference = source1 r - source2 r,
               similarity = (if source1 r \<noteq> 0
                             then (1 - \<bar>source1 r - source2 r\<bar> / source1 r) * 100
                             else 0)\<rparr>)
        (mset forecast_pivot)"
    by auto
  have ms': "mset forecast_result =
       {#\<lparr>pivot_index = [''c''], source1 = 50, source2 = 50, difference = 0, similarity = 100\<rparr>,
         \<lparr>pivot_index = [''b''], source1 = 0, source2 = 30, difference = - 30, similarity = 0\<rparr>,
         \<lparr>pivot_index = [''a''], source1 = 100, source2 = 80, difference = 20, similarity = 80\<rparr>#}"
    unfolding ms by (simp add: forecast_pivot_def)
  from t e
  have "\<forall>r \<in> set forecast_result.
      similarity r =
        (if source1 r \<noteq> 0 then (1 - \<bar>source1 r - source2 r\<bar> / source1 r) * 100 else 0)
      \<and> difference r = source1 r - source2 r"
    by auto
  with m have "similarity (forecast_result ! 0) =
        (if source1 (forecast_result ! 0) \<noteq> 0
         then (1 - \<bar>source1 (forecast_result ! 0) - source2 (forecast_result ! 0)\<bar>
                    / source1 (forecast_result ! 0)) * 100 else 0)
      \<and> difference (forecast_result ! 0) = source1 (forecast_result ! 0) - source2 (forecast_result ! 0)"
    by blast
  with s e m ms' show ?thesis by simp
qed


section \<open>Properties of the merge\<close>

subsection \<open>A table without its merging column\<close>

lemma merge_loop_filter:
  "merge_loop pd_merge (filter has_merging_column es) merged_df = merge_loop pd_merge es merged_df"
proof (induction es arbitrary: merged_df)
  case Nil
  then show ?case by simp
next
  case (Cons e es)
  obtain i loaded merging_column where e: "e = (i, loaded, merging_column)"
    by (cases e) auto
  show ?case
  proof (cases loaded)
    case None
    then show ?thesis using e by (simp add: has_merging_column_def)
  next
    case (Some df)
    show ?thesis
    proof (cases "merging_column \<in> set (columns df)")
      case True
      then have "has_merging_column e" using e Some by (simp add: has_merging_column_def)
      then show ?thesis using e Some True Cons.IH
        by (simp add: Let_def split: option.splits)
    next
      case False
      then have "\<not> has_merging_column e" using e Some by (simp add: has_merging_column_def)
      then show ?thesis using e Some False Cons.IH by simp
    qed
  qed
qed

text \<open>
  Claim C3, amended. A table whose declared key column is absent from its schema is passed
  over and the merge goes on: the result is the one the loop yields on the other tables, each
  at its own position, so that what earlier tables contributed is kept.
\<close>

theorem service_merge_skips_keyless:
  "service_merge pd_merge files
     = merge_loop pd_merge (filter has_merging_column (enumerate 0 files)) None"
  by (simp add: service_merge_def merge_loop_filter)

text \<open>
  The claim as stated fails: the second sheet has no column \<^verbatim>\<open>id\<close>, and the merge yields
  the first sheet as its output.
\<close>

theorem service_merge_abort_counterexample:
  "''id'' \<notin> set (columns keyless_sheet)
   \<and> map_option columns
       (service_merge pd_merge_outer [(Some keyed_sheet, ''id''), (Some keyless_sheet, ''id'')])
     = Some [''merge_key'', ''x'']
   \<and> map_option (\<lambda>m. map (\<lambda>r. r ''x'') (rows m))
       (service_merge pd_merge_outer [(Some keyed_sheet, ''id''), (Some keyless_sheet, ''id'')])
     = Some [Some (Num 1), Some (Num 2)]"
  by (simp add: service_merge_def keyed_sheet_def keyless_sheet_def enumerate_eq_zip
      normalize_merge_key_def rename_merge_key_def)

subsection \<open>The key column of the first table\<close>

text \<open>
  Claim C7, amended. The first table becomes the result with its key column renamed to
  \<^verbatim>\<open>merge_key\<close>, and every key that is not missing is replaced by its Python string: a text
  stays as it is, blanks included.
\<close>

theorem seed_key_is_string_cast:
  assumes "merging_column \<in> set (columns df)"
  shows "\<exists>seed. service_merge pd_merge ((Some df, merging_column) # rest)
             = merge_loop pd_merge (enumerate 1 rest) (Some seed)
          \<and> columns seed = map (\<lambda>c. if c = merging_column then ''merge_key'' else c) (columns df)
          \<and> length (rows seed) = length (rows df)
          \<and> (\<forall>i < length (rows df). \<forall>v. (rows df ! i) merging_column = Some v
                \<longrightarrow> (rows seed ! i) ''merge_key'' = Some (Txt (py_str v)))"
proof -
  let ?seed = "rename_merge_key merging_column (normalize_merge_key merging_column df)"
  have "service_merge pd_merge ((Some df, merging_column) # rest)
          = merge_loop pd_merge (enumerate 1 rest) (Some ?seed)"
    using assms by (simp add: service_merge_def Let_def normalize_merge_key_def)
  moreover have "columns ?seed
      = map (\<lambda>c. if c = merging_column then ''merge_key'' else c) (columns df)"
    by (simp add: rename_merge_key_def normalize_merge_key_def)
  moreover have "length (rows ?seed) = length (rows df)"
    by (simp add: rename_merge_key_def normalize_merge_key_def)
  moreover have "\<forall>i < length (rows df). \<forall>v. (rows df ! i) merging_column = Some v
      \<longrightarrow> (rows ?seed ! i) ''merge_key'' = Some (Txt (py_str v))"
    by (simp add: rename_merge_key_def normalize_merge_key_def astype_str_def fillna_empty_def)
  ultimately show ?thesis by blast
qed

theorem seed_key_is_string_cast_witness:
  "''id'' \<in> set (columns keyed_sheet)
   \<and> (rows keyed_sheet ! 0) ''id'' = Some (Txt '' a '')
   \<and> (\<exists>seed. service_merge pd_merge_outer [(Some keyed_sheet, ''id'')] = Some seed
         \<and> (rows seed ! 0) ''merge_key'' = Some (Txt '' a ''))"
proof -
  have c: "''id'' \<in> set (columns keyed_sheet)" by (simp add: keyed_sheet_def)
  have k: "(rows keyed_sheet ! 0) ''id'' = Some (Txt '' a '')" by (simp add: keyed_sheet_def)
  have n: "0 < length (rows keyed_sheet)" by (simp add: keyed_sheet_def)
  from seed_key_is_string_cast [OF c, of pd_merge_outer "[]"] k n
  have "\<exists>seed. service_merge pd_merge_outer [(Some keyed_sheet, ''id'')] = Some seed
         \<and> (rows seed ! 0) ''merge_key'' = Some (Txt (py_str (Txt '' a '')))"
    by (auto simp: enumerate_eq_zip)
  with c k show ?thesis by (simp add: py_str_def)
qed

text \<open>
  The claim as stated fails: the key \<^verbatim>\<open>' a '\<close> of the first sheet is kept with its
  blanks, where the trimmed string is \<^verbatim>\<open>'a'\<close>.
\<close>

theorem seed_key_trimmed_counterexample:
  "map_option (\<lambda>m. map (\<lambda>r. r ''merge_key'') (rows m))
       (service_merge pd_merge_outer [(Some keyed_sheet, ''id'')])
     = Some [Some (Txt '' a ''), Some (Txt ''7'')]
   \<and> py_strip '' a '' = ''a''
   \<and> '' a '' \<noteq> py_strip '' a ''"
proof -
  have "str_nat 7 = ''7''" by code_simp
  then show ?thesis
    by (simp add: service_merge_def keyed_sheet_def enumerate_eq_zip normalize_merge_key_def
        rename_merge_key_def astype_str_def fillna_empty_def py_str_def str_int_def
        py_strip_def is_space_def)
qed


section \<open>Properties of the file comparison\<close>

subsection \<open>The sort\<close>

lemma sorts_by_key_sort_key: "sorts_by_key sort_key"
  by (simp add: sorts_by_key_def)

lemma sort_values_mset: "sorts_by_key qs \<Longrightarrow> mset (sort_values qs cols rs) = mset rs"
  by (simp add: sort_values_def sorts_by_key_def)

lemma sort_values_sorted:
  "sorts_by_key qs \<Longrightarrow> sorted (map (sort_tuple cols) (sort_values qs cols rs))"
  by (simp add: sort_values_def sorts_by_key_def)

lemma sort_values_stable:
  "2 \<le> length cols \<Longrightarrow>
   filter (\<lambda>r. sort_tuple cols r = t) (sort_values qs cols rs)
     = filter (\<lambda>r. sort_tuple cols r = t) rs"
  by (simp add: sort_values_def sort_key_stable)

subsection \<open>Which rows are aligned\<close>

lemma key_in_reordered: "unique_key \<in> set (reordered_columns cc unique_key cols)"
  by (simp add: reordered_columns_def)

lemma column_select_key:
  "column (select_columns (reordered_columns cc unique_key cols) df) unique_key
     = column df unique_key"
  by (simp add: column_def select_columns_def key_in_reordered)

lemma isin_common_keys:
  "isin x (common_keys df1 df2 unique_key)
     \<longleftrightarrow> x \<noteq> None \<and> x \<in> set (column df1 unique_key) \<and> x \<in> set (column df2 unique_key)"
proof (cases x)
  case None
  then show ?thesis by (simp add: isin_def)
next
  case (Some k)
  have "k \<in> set (dropna xs) \<longleftrightarrow> Some k \<in> set xs" for xs :: "'a option list"
    by (force simp: dropna_def image_iff)
  then show ?thesis using Some by (simp add: isin_def common_keys_def)
qed

lemma keys_rows_with_keys:
  "map (\<lambda>r. r unique_key) (rows_with_keys df unique_key keys)
     = filter (\<lambda>x. isin x keys) (column df unique_key)"
  by (simp add: rows_with_keys_def column_def filter_map comp_def)

lemma intersect_tables_keys:
  assumes "intersect_tables cc df1 df2 unique_key cols = Inr al"
  shows "map (\<lambda>r. r unique_key) (df1_aligned al)
           = filter (\<lambda>x. x \<noteq> None \<and> x \<in> set (column df2 unique_key)) (column df1 unique_key)"
    and "map (\<lambda>r. r unique_key) (df2_aligned al)
           = filter (\<lambda>x. x \<noteq> None \<and> x \<in> set (column df1 unique_key)) (column df2 unique_key)"
proof -
  let ?cols = "kept_compare_columns cc cols"
  let ?re = "reordered_columns cc unique_key ?cols"
  let ?d1 = "select_columns ?re df1" and ?d2 = "select_columns ?re df2"
  let ?keys = "common_keys ?d1 ?d2 unique_key"
  from assms have al: "df1_aligned al = rows_with_keys ?d1 unique_key ?keys"
    "df2_aligned al = rows_with_keys ?d2 unique_key ?keys"
    by (auto simp: intersect_tables_def Let_def split: if_splits)
  have in_keys: "isin x ?keys \<longleftrightarrow>
      x \<noteq> None \<and> x \<in> set (column df1 unique_key) \<and> x \<in> set (column df2 unique_key)" for x
    by (simp add: isin_common_keys column_select_key)
  show "map (\<lambda>r. r unique_key) (df1_aligned al)
           = filter (\<lambda>x. x \<noteq> None \<and> x \<in> set (column df2 unique_key)) (column df1 unique_key)"
    unfolding al keys_rows_with_keys column_select_key
    by (rule filter_cong) (auto simp: in_keys)
  show "map (\<lambda>r. r unique_key) (df2_aligned al)
           = filter (\<lambda>x. x \<noteq> None \<and> x \<in> set (column df1 unique_key)) (column df2 unique_key)"
    unfolding al keys_rows_with_keys column_select_key
    by (rule filter_cong) (auto simp: in_keys)
qed

lemma align_Inr:
  "align qs cc df1 df2 unique_key cols = Inr al \<longleftrightarrow>
     (\<exists>pre. intersect_tables cc df1 df2 unique_key cols = Inr pre \<and> al = sort_aligned qs pre)"
  by (auto simp: align_def split: sum.splits)

lemma align_keys_mset:
  assumes "align qs cc df1 df2 unique_key cols = Inr al" and qs: "sorts_by_key qs"
  shows "mset (map (\<lambda>r. r unique_key) (df1_aligned al))
           = filter_mset (\<lambda>x. x \<noteq> None \<and> x \<in> set (column df2 unique_key))
               (mset (column df1 unique_key))"
    and "mset (map (\<lambda>r. r unique_key) (df2_aligned al))
           = filter_mset (\<lambda>x. x \<noteq> None \<and> x \<in> set (column df1 unique_key))
               (mset (column df2 unique_key))"
proof -
  from assms(1) obtain pre where pre: "intersect_tables cc df1 df2 unique_key cols = Inr pre"
    and al: "al = sort_aligned qs pre"
    by (auto simp: align_Inr)
  have "mset (map (\<lambda>r. r unique_key) (df1_aligned al))
          = mset (map (\<lambda>r. r unique_key) (df1_aligned pre))"
    by (simp add: al sort_aligned_def sort_values_mset [OF qs])
  then show "mset (map (\<lambda>r. r unique_key) (df1_aligned al))
           = filter_mset (\<lambda>x. x \<noteq> None \<and> x \<in> set (column df2 unique_key))
               (mset (column df1 unique_key))"
    by (simp add: intersect_tables_keys(1) [OF pre])
  have "mset (map (\<lambda>r. r unique_key) (df2_aligned al))
          = mset (map (\<lambda>r. r unique_key) (df2_aligned pre))"
    by (simp add: al sort_aligned_def sort_values_mset [OF qs])
  then show "mset (map (\<lambda>r. r unique_key) (df2_aligned al))
           = filter_mset (\<lambda>x. x \<noteq> None \<and> x \<in> set (column df1 unique_key))
               (mset (column df2 unique_key))"
    by (simp add: intersect_tables_keys(2) [OF pre])
qed

text \<open>
  Claim C4, amended. The aligner compares the key values as they are, with no cast, no
  trimming and no change of case: a row of either table is aligned exactly when its key is
  not missing and is equal to the key of some row of the other table. Rows with a missing key
  never take part.
\<close>

theorem align_matches_raw_keys:
  assumes "align qs cc df1 df2 unique_key cols = Inr al" and "sorts_by_key qs"
  shows "mset (map (\<lambda>r. r unique_key) (df1_aligned al))
           = filter_mset (\<lambda>x. x \<noteq> None \<and> x \<in> set (column df2 unique_key))
               (mset (column df1 unique_key))
         \<and> mset (map (\<lambda>r. r unique_key) (df2_aligned al))
           = filter_mset (\<lambda>x. x \<noteq> None \<and> x \<in> set (column df1 unique_key))
               (mset (column df2 unique_key))
         \<and> (\<forall>r \<in> set (df1_aligned al) \<union> set (df2_aligned al). r unique_key \<noteq> None)"
proof -
  note k = align_keys_mset [OF assms]
  have "x \<noteq> None" if "x \<in> set (map (\<lambda>r. r unique_key) (df1_aligned al))" for x
  proof -
    from that have "x \<in># mset (map (\<lambda>r. r unique_key) (df1_aligned al))"
      by (simp only: set_mset_mset)
    then show ?thesis unfolding k(1) by simp
  qed
  moreover have "x \<noteq> None" if "x \<in> set (map (\<lambda>r. r unique_key) (df2_aligned al))" for x
  proof -
    from that have "x \<in># mset (map (\<lambda>r. r unique_key) (df2_aligned al))"
      by (simp only: set_mset_mset)
    then show ?thesis unfolding k(2) by simp
  qed
  ultimately have "\<forall>r \<in> set (df1_aligned al) \<union> set (df2_aligned al). r unique_key \<noteq> None"
    by auto
  with k show ?thesis by blast
qed

lemma align_old_new:
  "align sort_key [''v'', ''id'', ''name'', ''note''] old_sheet new_sheet ''id'' [''v'', ''note'']
     = Inr (sort_aligned sort_key
         (projr (intersect_tables [''v'', ''id'', ''name'', ''note''] old_sheet new_sheet ''id''
                   [''v'', ''note''])))"
  by (simp add: align_def intersect_tables_def Let_def)

theorem align_matches_raw_keys_witness:
  "\<exists>al. align sort_key [''v'', ''id'', ''name'', ''note''] old_sheet new_sheet ''id'' [''v'', ''note'']
           = Inr al
        \<and> mset (map (\<lambda>r. r ''id'') (df1_aligned al)) = {#Some ''b'', Some ''a''#}
        \<and> mset (map (\<lambda>r. r ''id'') (df2_aligned al)) = {#Some ''a'', Some ''b''#}"
proof -
  have c1: "column old_sheet ''id'' = [Some ''b'', Some ''a'', None]"
    by (simp add: old_sheet_def sheet_def column_def)
  have c2: "column new_sheet ''id'' = [Some ''a'', Some ''b'', Some ''c'']"
    by (simp add: new_sheet_def sheet_def column_def)
  from align_matches_raw_keys [OF align_old_new sorts_by_key_sort_key] show ?thesis
    unfolding c1 c2 using align_old_new by simp
qed

text \<open>
  The claim as stated fails: the keys \<^verbatim>\<open>'A '\<close> and \<^verbatim>\<open>'a'\<close> have the same normal form,
  and neither row is aligned.
\<close>

theorem align_normalizes_counterexample:
  "spec_normalized_key ''A '' = spec_normalized_key ''a''
   \<and> map_sum id (\<lambda>al. (length (df1_aligned al), length (df2_aligned al)))
        (align sort_key [''id'', ''v''] upper_sheet lower_sheet ''id'' [''v''])
     = Inr (0, 0)"
  by code_simp

subsection \<open>Row correspondence\<close>

lemma sorted_by_head:
  assumes "sorted (map (sort_tuple (c # cs)) rs)"
  shows "sorted (map (\<lambda>r. na_last (r c)) rs)"
proof -
  have "sorted_wrt (\<lambda>r s. sort_tuple (c # cs) r \<le> sort_tuple (c # cs) s) rs"
    using assms by (simp only: sorted_map)
  then have "sorted_wrt (\<lambda>r s. na_last (r c) \<le> na_last (s c)) rs"
    by (rule sorted_wrt_mono_rel [rotated]) (auto simp: sort_tuple_def)
  then show ?thesis by (simp only: sorted_map)
qed

lemma sorted_same_mset:
  fixes xs ys :: "('a::linorder) list"
  assumes "mset xs = mset ys" "sorted xs" "sorted ys"
  shows "xs = ys"
proof -
  have "sort ys = xs" using assms(1,2) by (rule properties_for_sort)
  moreover have "sort ys = ys" using assms(3) by (rule sorted_sort_id)
  ultimately show ?thesis by simp
qed

lemma inj_na_last: "inj na_last"
  by (rule injI) (simp add: na_last_def)

lemma sortable_head:
  assumes "intersect_tables cc df1 df2 unique_key cols = Inr pre"
  shows "\<exists>cs. sortable pre = unique_key # cs"
  using assms by (auto simp: intersect_tables_def Let_def sortable_columns_def split: if_splits)

lemma align_sorted:
  assumes "align qs cc df1 df2 unique_key cols = Inr al" and qs: "sorts_by_key qs"
  shows "sorted (map (\<lambda>r. na_last (r unique_key)) (df1_aligned al))"
    and "sorted (map (\<lambda>r. na_last (r unique_key)) (df2_aligned al))"
proof -
  from assms(1) obtain pre where pre: "intersect_tables cc df1 df2 unique_key cols = Inr pre"
    and al: "al = sort_aligned qs pre"
    by (auto simp: align_Inr)
  from sortable_head [OF pre] obtain cs where cs: "sortable pre = unique_key # cs" ..
  have "sorted (map (sort_tuple (unique_key # cs)) (df1_aligned al))"
    using sort_values_sorted [OF qs, of "unique_key # cs"] by (simp add: al sort_aligned_def cs)
  then show "sorted (map (\<lambda>r. na_last (r unique_key)) (df1_aligned al))"
    by (rule sorted_by_head)
  have "sorted (map (sort_tuple (unique_key # cs)) (df2_aligned al))"
    using sort_values_sorted [OF qs, of "unique_key # cs"] by (simp add: al sort_aligned_def cs)
  then show "sorted (map (\<lambda>r. na_last (r unique_key)) (df2_aligned al))"
    by (rule sorted_by_head)
qed

text \<open>
  Claim C5, amended. When every key that occurs in both tables occurs as often in the one as
  in the other, the two aligned tables have the same number of rows and the same key at every
  position.
\<close>

theorem align_row_parallel:
  assumes "align qs cc df1 df2 unique_key cols = Inr al" and "sorts_by_key qs"
    and "\<forall>k. Some k \<in> set (column df1 unique_key) \<longrightarrow> Some k \<in> set (column df2 unique_key)
           \<longrightarrow> count_list (column df1 unique_key) (Some k)
               = count_list (column df2 unique_key) (Some k)"
  shows "length (df1_aligned al) = length (df2_aligned al)
         \<and> map (\<lambda>r. r unique_key) (df1_aligned al) = map (\<lambda>r. r unique_key) (df2_aligned al)"
proof -
  let ?k1 = "map (\<lambda>r. r unique_key) (df1_aligned al)"
  let ?k2 = "map (\<lambda>r. r unique_key) (df2_aligned al)"
  let ?c1 = "column df1 unique_key" and ?c2 = "column df2 unique_key"
  note k = align_keys_mset [OF assms(1,2)]
  have "count (mset ?k1) x = count (mset ?k2) x" for x
  proof (cases x)
    case None
    then show ?thesis unfolding k by simp
  next
    case (Some v)
    show ?thesis
    proof (cases "x \<in> set ?c1 \<and> x \<in> set ?c2")
      case True
      with assms(3) Some have "count_list ?c1 x = count_list ?c2 x" by blast
      then show ?thesis unfolding k using True Some by (simp add: count_mset)
    next
      case False
      then show ?thesis unfolding k using Some
        by (auto simp: count_mset count_list_0_iff)
    qed
  qed
  then have "mset ?k1 = mset ?k2" by (rule multiset_eqI)
  then have "mset (map na_last ?k1) = mset (map na_last ?k2)" by (simp only: mset_map)
  moreover have "sorted (map na_last ?k1)" "sorted (map na_last ?k2)"
    using align_sorted [OF assms(1,2)] by (simp_all add: comp_def)
  ultimately have "map na_last ?k1 = map na_last ?k2" by (rule sorted_same_mset)
  then have eq: "?k1 = ?k2" using inj_map_eq_map [OF inj_na_last] by blast
  from arg_cong [OF eq, of length] have "length (df1_aligned al) = length (df2_aligned al)"
    by (simp only: length_map)
  then show ?thesis using eq by blast
qed

theorem align_row_parallel_witness:
  "\<exists>al. align sort_key [''v'', ''id'', ''name'', ''note''] old_sheet new_sheet ''id'' [''v'', ''note'']
           = Inr al
        \<and> length (df1_aligned al) = length (df2_aligned al)
        \<and> map (\<lambda>r. r ''id'') (df1_aligned al) = map (\<lambda>r. r ''id'') (df2_aligned al)"
proof -
  have c1: "column old_sheet ''id'' = [Some ''b'', Some ''a'', None]"
    by (simp add: old_sheet_def sheet_def column_def)
  have c2: "column new_sheet ''id'' = [Some ''a'', Some ''b'', Some ''c'']"
    by (simp add: new_sheet_def sheet_def column_def)
  have h: "\<forall>k. Some k \<in> set (column old_sheet ''id'') \<longrightarrow> Some k \<in> set (column new_sheet ''id'')
           \<longrightarrow> count_list (column old_sheet ''id'') (Some k)
               = count_list (column new_sheet ''id'') (Some k)"
    unfolding c1 c2 by auto
  from align_row_parallel [OF align_old_new sorts_by_key_sort_key h] align_old_new
  show ?thesis by blast
qed

text \<open>
  The claim as stated fails: one table has the key \<^verbatim>\<open>a\<close> twice and the other once, and
  the aligned tables have two rows and one row; the comparison then ends in the handler.
\<close>

theorem align_row_parallel_counterexample:
  "map_sum id (\<lambda>al. (length (df1_aligned al), length (df2_aligned al)))
        (align sort_key [''v'', ''id'', ''name''] twice_sheet once_sheet ''id'' [''v''])
     = Inr (2, 1)
   \<and> map_sum id (\<lambda>res. ())
        (compare sort_key [''v'', ''id'', ''name''] twice_sheet once_sheet ''id'' [''v''])
     = Inl ComparisonFailed"
  by code_simp

subsection \<open>The order of the aligned rows\<close>

lemma sortable_columns_eq:
  assumes "intersect_tables cc df1 df2 unique_key cols = Inr pre"
    and "distinct cc" and "unique_key \<notin> set cols"
  shows "sortable pre = unique_key # filter (\<lambda>c. c \<noteq> unique_key \<and> c \<notin> set cols) cc"
proof -
  let ?cmp = "kept_compare_columns cc cols"
  let ?stable = "filter (\<lambda>col. col \<notin> set ?cmp) cc"
  let ?re = "reordered_columns cc unique_key ?cmp"
  from assms(1) have s: "sortable pre = sortable_columns ?re unique_key ?cmp"
    by (auto simp: intersect_tables_def Let_def select_columns_def split: if_splits)
  have k: "unique_key \<notin> set ?cmp" using assms(3) by (simp add: kept_compare_columns_def)
  have re: "?re = (unique_key # remove1 unique_key ?stable) @ ?cmp"
    by (simp add: reordered_columns_def Let_def)
  have "filter (\<lambda>col. col \<notin> set ?cmp) (remove1 unique_key ?stable) = remove1 unique_key ?stable"
    using set_remove1_subset [of unique_key ?stable] by (intro filter_True) auto
  then have "filter (\<lambda>col. col \<notin> set ?cmp) ?re = unique_key # remove1 unique_key ?stable"
    unfolding re using k by simp
  then have "sortable pre = unique_key # remove1 unique_key ?stable"
    unfolding s by (simp add: sortable_columns_def Let_def)
  moreover have "distinct ?stable" using assms(2) by simp
  then have "remove1 unique_key ?stable = filter (\<lambda>c. c \<noteq> unique_key) ?stable"
    by (simp add: distinct_remove1_removeAll removeAll_filter_not_eq) (metis)
  moreover have "filter (\<lambda>c. c \<noteq> unique_key) ?stable
      = filter (\<lambda>c. c \<noteq> unique_key \<and> c \<notin> set cols) cc"
    by (auto simp: kept_compare_columns_def intro: filter_cong)
  ultimately show ?thesis by simp
qed

text \<open>
  Claim C8, amended. Each filtered table is sorted by the tuple of the key followed by the
  other shared columns that are not compared: the output holds the rows of the filtered
  table, in ascending order of that tuple, so that rows with the same key are ordered by the
  other columns of the tuple and not by the order they had before. Rows that agree on all
  columns of the tuple keep the order they had before when the tuple has at least two
  columns; when the key is the only column of the tuple nothing is said of their order.
  The list of common columns is made of a set and has no repetition, and \<^verbatim>\<open>compare\<close>
  takes the key out of the compared columns before it aligns.
\<close>

theorem align_sort_order:
  assumes "intersect_tables cc df1 df2 unique_key cols = Inr pre"
    and "sorts_by_key qs" and "distinct cc" and "unique_key \<notin> set cols"
  shows "\<exists>al. align qs cc df1 df2 unique_key cols = Inr al
           \<and> sortable pre = unique_key # filter (\<lambda>c. c \<noteq> unique_key \<and> c \<notin> set cols) cc
           \<and> sorted (map (sort_tuple (sortable pre)) (df1_aligned al))
           \<and> sorted (map (sort_tuple (sortable pre)) (df2_aligned al))
           \<and> mset (df1_aligned al) = mset (df1_aligned pre)
           \<and> mset (df2_aligned al) = mset (df2_aligned pre)
           \<and> (2 \<le> length (sortable pre) \<longrightarrow>
                filter (\<lambda>r. sort_tuple (sortable pre) r = t) (df1_aligned al)
                  = filter (\<lambda>r. sort_tuple (sortable pre) r = t) (df1_aligned pre)
                \<and> filter (\<lambda>r. sort_tuple (sortable pre) r = t) (df2_aligned al)
                  = filter (\<lambda>r. sort_tuple (sortable pre) r = t) (df2_aligned pre))"
proof -
  let ?al = "sort_aligned qs pre"
  have "align qs cc df1 df2 unique_key cols = Inr ?al"
    using assms(1) by (simp add: align_def)
  moreover note sortable_columns_eq [OF assms(1,3,4)]
  moreover have "sorted (map (sort_tuple (sortable pre)) (df1_aligned ?al))"
    "sorted (map (sort_tuple (sortable pre)) (df2_aligned ?al))"
    by (simp_all add: sort_aligned_def sort_values_sorted [OF assms(2)])
  moreover have "mset (df1_aligned ?al) = mset (df1_aligned pre)"
    "mset (df2_aligned ?al) = mset (df2_aligned pre)"
    by (simp_all add: sort_aligned_def sort_values_mset [OF assms(2)])
  moreover have "filter (\<lambda>r. sort_tuple (sortable pre) r = t) (df1_aligned ?al)
                  = filter (\<lambda>r. sort_tuple (sortable pre) r = t) (df1_aligned pre)
                \<and> filter (\<lambda>r. sort_tuple (sortable pre) r = t) (df2_aligned ?al)
                  = filter (\<lambda>r. sort_tuple (sortable pre) r = t) (df2_aligned pre)"
    if "2 \<le> length (sortable pre)"
    using that by (simp add: sort_aligned_def sort_values_stable)
  ultimately show ?thesis by blast
qed

lemma intersect_tied_once:
  "intersect_tables [''v'', ''id'', ''name''] tied_sheet once_sheet ''id'' [''v'']
     = Inr (projr (intersect_tables [''v'', ''id'', ''name''] tied_sheet once_sheet ''id'' [''v'']))"
  by (simp add: intersect_tables_def Let_def)

lemma sorts_by_key_tie_reversing: "sorts_by_key tie_reversing_sort"
  by (simp add: sorts_by_key_def tie_reversing_sort_def)

theorem align_sort_order_witness:
  "\<exists>al. align tie_reversing_sort [''v'', ''id'', ''name''] tied_sheet once_sheet ''id'' [''v'']
           = Inr al
        \<and> map (\<lambda>r. (r ''name'', r ''v'')) (df1_aligned al)
          = [(Some ''b'', Some ''2''), (Some ''z'', Some ''1''), (Some ''z'', Some ''3'')]
        \<and> map (\<lambda>r. (r ''name'', r ''v''))
            (filter (\<lambda>r. sort_tuple [''id'', ''name''] r = [(False, Some ''a''), (False, Some ''z'')])
               (df1_aligned al))
          = [(Some ''z'', Some ''1''), (Some ''z'', Some ''3'')]"
proof -
  let ?cc = "[''v'', ''id'', ''name'']"
  let ?pre = "projr (intersect_tables ?cc tied_sheet once_sheet ''id'' [''v''])"
  let ?t = "[(False, Some ''a''), (False, Some ''z'')]"
  have d: "distinct ?cc" "''id'' \<notin> set [''v'']" by simp_all
  have f: "map (\<lambda>r. (r ''name'', r ''v''))
            (filter (\<lambda>r. sort_tuple [''id'', ''name''] r = ?t) (df1_aligned ?pre))
          = [(Some ''z'', Some ''1''), (Some ''z'', Some ''3'')]"
    by code_simp
  have a: "map (\<lambda>r. (r ''name'', r ''v''))
      (df1_aligned (projr (align tie_reversing_sort ?cc tied_sheet once_sheet ''id'' [''v''])))
          = [(Some ''b'', Some ''2''), (Some ''z'', Some ''1''), (Some ''z'', Some ''3'')]"
    by code_simp
  from align_sort_order [OF intersect_tied_once sorts_by_key_tie_reversing d, of ?t]
  obtain al where al: "align tie_reversing_sort ?cc tied_sheet once_sheet ''id'' [''v''] = Inr al"
    and s: "sortable ?pre = ''id'' # filter (\<lambda>c. c \<noteq> ''id'' \<and> c \<notin> set [''v'']) ?cc"
    and st: "2 \<le> length (sortable ?pre) \<longrightarrow>
        filter (\<lambda>r. sort_tuple (sortable ?pre) r = ?t) (df1_aligned al)
          = filter (\<lambda>r. sort_tuple (sortable ?pre) r = ?t) (df1_aligned ?pre)"
    by blast
  from s have s': "sortable ?pre = [''id'', ''name'']" by simp
  from st have "filter (\<lambda>r. sort_tuple [''id'', ''name''] r = ?t) (df1_aligned al)
      = filter (\<lambda>r. sort_tuple [''id'', ''name''] r = ?t) (df1_aligned ?pre)"
    unfolding s' by simp
  with f a al show ?thesis by auto
qed

text \<open>
  The claim as stated fails: the two rows with the key \<^verbatim>\<open>a\<close> stand in the order
  \<^verbatim>\<open>z\<close>, \<^verbatim>\<open>b\<close> of their names before the sort and in the order \<^verbatim>\<open>b\<close>, \<^verbatim>\<open>z\<close> after it.
\<close>

theorem align_stable_counterexample:
  "map_sum id (\<lambda>al. map (\<lambda>r. (r ''id'', r ''name'')) (df1_aligned al))
        (intersect_tables [''v'', ''id'', ''name''] twice_sheet once_sheet ''id'' [''v''])
     = Inr [(Some ''a'', Some ''z''), (Some ''a'', Some ''b'')]
   \<and> map_sum id (\<lambda>al. map (\<lambda>r. (r ''id'', r ''name'')) (df1_aligned al))
        (align sort_key [''v'', ''id'', ''name''] twice_sheet once_sheet ''id'' [''v''])
     = Inr [(Some ''a'', Some ''b''), (Some ''a'', Some ''z'')]"
  by code_simp

subsection \<open>Missing cells and the comparison of a table with itself\<close>

lemma compare_cell_length:
  "length (fst (compare_cell r1 r2 idx c st)) = length (fst st)"
  by (simp add: compare_cell_def Let_def)

lemma compare_cell_mismatches:
  "set (snd (compare_cell (a1 ! idx) (a2 ! idx) idx c st))
     \<subseteq> set (snd st) \<union> {(i, c). (a1 ! i) c \<noteq> (a2 ! i) c}"
  by (auto simp: compare_cell_def Let_def)

lemma compare_cell_keeps:
  assumes "(a1 ! i) c' = (a2 ! i) c'"
  shows "(fst (compare_cell (a1 ! idx) (a2 ! idx) idx c st) ! i) c' = (fst st ! i) c'"
proof (cases "i = idx")
  case False
  then show ?thesis by (simp add: compare_cell_def Let_def)
next
  case True
  show ?thesis
  proof (cases "idx < length (fst st)")
    case False
    then show ?thesis by (simp add: compare_cell_def Let_def list_update_beyond)
  next
    case inside: True
    show ?thesis
    proof (cases "c' = c")
      case True
      with assms \<open>i = idx\<close> show ?thesis by (simp add: compare_cell_def Let_def)
    next
      case False
      with inside \<open>i = idx\<close> show ?thesis by (simp add: compare_cell_def Let_def)
    qed
  qed
qed

lemma fold_compare_cell:
  "length (fst (fold (compare_cell (a1 ! idx) (a2 ! idx) idx) cs st)) = length (fst st)
   \<and> set (snd (fold (compare_cell (a1 ! idx) (a2 ! idx) idx) cs st))
       \<subseteq> set (snd st) \<union> {(i, c). (a1 ! i) c \<noteq> (a2 ! i) c}
   \<and> ((a1 ! i) c' = (a2 ! i) c'
       \<longrightarrow> (fst (fold (compare_cell (a1 ! idx) (a2 ! idx) idx) cs st) ! i) c' = (fst st ! i) c')"
proof (induction cs arbitrary: st)
  case Nil
  then show ?case by simp
next
  case (Cons c cs)
  let ?st = "compare_cell (a1 ! idx) (a2 ! idx) idx c st"
  note IH = Cons.IH [of ?st]
  have "length (fst (fold (compare_cell (a1 ! idx) (a2 ! idx) idx) (c # cs) st)) = length (fst st)"
    using IH by (simp add: compare_cell_length)
  moreover have "set (snd (fold (compare_cell (a1 ! idx) (a2 ! idx) idx) (c # cs) st))
       \<subseteq> set (snd st) \<union> {(i, c). (a1 ! i) c \<noteq> (a2 ! i) c}"
    using IH compare_cell_mismatches [of a1 idx a2 c st] by auto
  moreover have "(a1 ! i) c' = (a2 ! i) c'
       \<longrightarrow> (fst (fold (compare_cell (a1 ! idx) (a2 ! idx) idx) (c # cs) st) ! i) c'
           = (fst st ! i) c'"
    using IH compare_cell_keeps [of a1 i c' a2 idx c st] by simp
  ultimately show ?case by blast
qed

lemma compare_rows_result:
  assumes "compare_rows cols a1 a2 idxs st = Inr st'"
  shows "length (fst st') = length (fst st)
   \<and> set (snd st') \<subseteq> set (snd st) \<union> {(i, c). (a1 ! i) c \<noteq> (a2 ! i) c}
   \<and> ((a1 ! i) c' = (a2 ! i) c' \<longrightarrow> (fst st' ! i) c' = (fst st ! i) c')"
  using assms
proof (induction idxs arbitrary: st)
  case Nil
  then show ?case by auto
next
  case (Cons idx idxs)
  let ?st = "fold (compare_cell (a1 ! idx) (a2 ! idx) idx) cols st"
  from Cons.prems have "compare_rows cols a1 a2 idxs ?st = Inr st'"
    by (simp split: if_splits)
  from Cons.IH [OF this] fold_compare_cell [of a1 idx a2 cols st i c']
  show ?case by auto
qed

lemma compare_cell_same: "compare_cell r r idx c st = st"
  by (simp add: compare_cell_def Let_def)

lemma fold_compare_cell_same: "fold (compare_cell r r idx) cs st = st"
  by (induction cs) (simp_all add: compare_cell_same)

lemma compare_rows_same:
  "\<forall>i \<in> set idxs. i < length a \<Longrightarrow> compare_rows cols a a idxs st = Inr st"
  by (induction idxs) (simp_all add: fold_compare_cell_same)

lemma align_same:
  assumes "align qs cc df df unique_key cols = Inr al"
  shows "df2_aligned al = df1_aligned al"
  using assms
  by (auto simp: align_def intersect_tables_def sort_aligned_def Let_def split: if_splits)

text \<open>
  Claim C9. Where the two aligned rows at a position both miss the value of a column, no
  mismatch is recorded for that cell and the cell of the result is the one of the first
  table; and a table compared with itself yields its aligned rows unchanged and no mismatch.
\<close>

theorem missing_cells_equal_and_self_comparison:
  "(align qs cc df1 df2 unique_key (without_key unique_key cols) = Inr al
      \<longrightarrow> compare qs cc df1 df2 unique_key cols = Inr (result_df, mismatches)
      \<longrightarrow> (\<forall>idx col. idx < length (df1_aligned al) \<longrightarrow> idx < length (df2_aligned al)
             \<longrightarrow> (df1_aligned al ! idx) col = None \<longrightarrow> (df2_aligned al ! idx) col = None
             \<longrightarrow> (idx, col) \<notin> set mismatches \<and> (result_df ! idx) col = Orig None))
   \<and> (unique_key \<in> set cc
      \<longrightarrow> (\<exists>al. align qs cc df df unique_key (without_key unique_key cols) = Inr al
            \<and> compare qs cc df df unique_key cols
                = Inr (map (\<lambda>r c. Orig (r c)) (df1_aligned al), [])))"
proof (intro conjI impI allI)
  fix idx col
  assume al: "align qs cc df1 df2 unique_key (without_key unique_key cols) = Inr al"
    and cmp: "compare qs cc df1 df2 unique_key cols = Inr (result_df, mismatches)"
    and idx: "idx < length (df1_aligned al)"
    and none: "(df1_aligned al ! idx) col = None" "(df2_aligned al ! idx) col = None"
  let ?st = "(map (\<lambda>r c. Orig (r c)) (df1_aligned al), [])"
  from al cmp have "compare_rows (compared al) (df1_aligned al) (df2_aligned al)
      [0 ..< length (df1_aligned al)] ?st = Inr (result_df, mismatches)"
    by (simp add: compare_def)
  from compare_rows_result [OF this, of idx col] none
  have m: "set mismatches \<subseteq> {(i, c). (df1_aligned al ! i) c \<noteq> (df2_aligned al ! i) c}"
    and r: "(result_df ! idx) col = (map (\<lambda>r c. Orig (r c)) (df1_aligned al) ! idx) col"
    by simp_all
  from m none show "(idx, col) \<notin> set mismatches" by auto
  from r idx none show "(result_df ! idx) col = Orig None" by simp
next
  assume "unique_key \<in> set cc"
  then obtain al where al: "align qs cc df df unique_key (without_key unique_key cols) = Inr al"
    by (auto simp: align_def intersect_tables_def Let_def)
  have "compare qs cc df df unique_key cols = Inr (map (\<lambda>r c. Orig (r c)) (df1_aligned al), [])"
    using al align_same [OF al] by (simp add: compare_def compare_rows_same)
  with al show "\<exists>al. align qs cc df df unique_key (without_key unique_key cols) = Inr al
            \<and> compare qs cc df df unique_key cols
                = Inr (map (\<lambda>r c. Orig (r c)) (df1_aligned al), [])"
    by blast
qed

theorem missing_cells_equal_and_self_comparison_witness:
  "(\<exists>al result_df.
      align sort_key [''v'', ''id'', ''name'', ''note''] old_sheet new_sheet ''id''
          (without_key ''id'' [''v'', ''note'']) = Inr al
      \<and> compare sort_key [''v'', ''id'', ''name'', ''note''] old_sheet new_sheet ''id'' [''v'', ''note'']
          = Inr (result_df, [(0, ''v'')])
      \<and> (df1_aligned al ! 1) ''note'' = None \<and> (df2_aligned al ! 1) ''note'' = None
      \<and> (result_df ! 1) ''note'' = Orig None)
   \<and> (\<exists>result_df.
        compare sort_key [''v'', ''id'', ''name'', ''note''] old_sheet old_sheet ''id'' [''v'', ''note'']
          = Inr (result_df, []))"
proof -
  let ?cc = "[''v'', ''id'', ''name'', ''note'']"
  let ?al = "sort_aligned sort_key (projr (intersect_tables ?cc old_sheet new_sheet ''id'' [''v'', ''note'']))"
  let ?res = "projr (compare sort_key ?cc old_sheet new_sheet ''id'' [''v'', ''note''])"
  have w: "without_key ''id'' [''v'', ''note''] = [''v'', ''note'']"
    by (simp add: without_key_def)
  have al: "align sort_key ?cc old_sheet new_sheet ''id'' (without_key ''id'' [''v'', ''note'']) = Inr ?al"
    unfolding w by (rule align_old_new)
  have "\<not> isl (compare sort_key ?cc old_sheet new_sheet ''id'' [''v'', ''note''])" by code_simp
  then have "compare sort_key ?cc old_sheet new_sheet ''id'' [''v'', ''note''] = Inr (fst ?res, snd ?res)"
    by (cases "compare sort_key ?cc old_sheet new_sheet ''id'' [''v'', ''note'']") simp_all
  moreover have "snd ?res = [(0, ''v'')]" by code_simp
  ultimately have cmp: "compare sort_key ?cc old_sheet new_sheet ''id'' [''v'', ''note'']
      = Inr (fst ?res, [(0, ''v'')])"
    by simp
  have n: "1 < length (df1_aligned ?al)" "1 < length (df2_aligned ?al)"
    "(df1_aligned ?al ! 1) ''note'' = None" "(df2_aligned ?al ! 1) ''note'' = None"
    by code_simp+
  have k: "''id'' \<in> set ?cc" by simp
  note t1 = missing_cells_equal_and_self_comparison
    [of sort_key ?cc old_sheet new_sheet "''id''" "[''v'', ''note'']" ?al "fst ?res" "[(0, ''v'')]" old_sheet]
  from t1 al cmp n have "(fst ?res ! 1) ''note'' = Orig None" by blast
  moreover from t1 k have "\<exists>result_df.
        compare sort_key ?cc old_sheet old_sheet ''id'' [''v'', ''note''] = Inr (result_df, [])"
    by blast
  ultimately show ?thesis using al cmp n by blast
qed


end
